theory Spec2Isabelle
  imports Main "HOL-Library.AList"
begin

section \<open>Values, references and objects\<close>

text \<open>
  The selectors of \<^verbatim>\<open>entity-selectors.ts\<close> work on immutable JavaScript values held in the
  NgRx store. A value is a primitive or a reference to an object. An object never changes
  once it is in the store, so a reference is modelled as an allocation tag together with the
  content of the object: two references are the same reference exactly when tag and content
  agree, and \<^verbatim>\<open>===\<close> on values is equality of the model. A freshly built object takes its
  tag from the allocation counter of the world.

  \<^item> \<open>VNum n\<close> is the number with the integer value \<open>n\<close> (the ids of entities are strings
    or whole numbers; fractions and \<^verbatim>\<open>NaN\<close> are no values of the model).
  \<^item> \<open>VStr s\<close> is the string with the code units \<open>s\<close>, each below 256.
  \<^item> \<open>VArray a xs\<close> is an array without holes.
  \<^item> \<open>VObject a ps\<close> is a plain object (its prototype is \<^verbatim>\<open>Object.prototype\<close>) with the
    own properties \<open>ps\<close>.
  \<^item> \<open>VEntity e\<close> is an entity of type \<^verbatim>\<open>T\<close>, an object that is opaque to the selectors.
  \<^item> \<open>VNative k\<close> is the member \<open>k\<close> of \<^verbatim>\<open>Object.prototype\<close>, which every plain object
    inherits: a built-in function, or \<^verbatim>\<open>Object.prototype\<close> itself for \<^verbatim>\<open>__proto__\<close>.
\<close>

datatype 'a val =
    Undefined
  | VBool bool
  | VNum int
  | VStr string
  | VEntity 'a
  | VArray nat "'a val list"
  | VObject nat "(string \<times> 'a val) list"
  | VNative string

text \<open>
  \<open>TypeError\<close> is the exception of JavaScript. \<open>Unsupported\<close> is no exception of the
  program: it marks a computation that leaves the part of JavaScript that the model covers
  (a member of an entity or of a built-in, an upper-case letter outside ASCII, the decimal
  form of a number that is no safe integer). Of such a computation the model says nothing.
\<close>

datatype error = TypeError | Unsupported

type_synonym 'a res = "error + 'a val"

text \<open>Decimal rendering of an integer.\<close>

definition digit :: "nat \<Rightarrow> char" where
  "digit n = ''0123456789'' ! n"

function show_nat :: "nat \<Rightarrow> string" where
  "show_nat n = (if n < 10 then [digit n] else show_nat (n div 10) @ [digit (n mod 10)])"
  by pat_completeness auto
termination
  by (relation "measure id") auto

declare show_nat.simps [simp del]

definition show_int :: "int \<Rightarrow> string" where
  "show_int i = (if i < 0 then CHR ''-'' # show_nat (nat (- i)) else show_nat (nat i))"

text \<open>
  The string-keyed members of \<^verbatim>\<open>Object.prototype\<close>. A plain object inherits them; a read of
  such a name on an object that has no own property of the name returns the built-in.
\<close>

definition Object_prototype :: "string list" where
  "Object_prototype =
     [''constructor'', ''__defineGetter__'', ''__defineSetter__'', ''hasOwnProperty'',
      ''__lookupGetter__'', ''__lookupSetter__'', ''isPrototypeOf'', ''propertyIsEnumerable'',
      ''toString'', ''valueOf'', ''__proto__'', ''toLocaleString'']"

definition inherited :: "string \<Rightarrow> 'a val" where
  "inherited k = (if k \<in> set Object_prototype then VNative k else Undefined)"

text \<open>
  The names of the members that arrays, strings, numbers and booleans inherit from their
  prototypes, over the editions of the language (a name that only some engines have is in
  the list; \<^verbatim>\<open>length\<close> is not, since arrays and strings have it as an own property and
  numbers and booleans do not have it). A read of such a name is not modelled; a read of
  any other name that is no own property returns \<^verbatim>\<open>undefined\<close>.
\<close>

definition builtin_members :: "string list" where
  "builtin_members = Object_prototype @
     [''toSource'', ''watch'', ''unwatch'',
      ''at'', ''concat'', ''copyWithin'', ''entries'', ''every'', ''fill'', ''filter'', ''find'',
      ''findIndex'', ''findLast'', ''findLastIndex'', ''flat'', ''flatMap'', ''flatten'',
      ''forEach'', ''group'', ''groupBy'', ''groupToMap'', ''groupByToMap'', ''includes'',
      ''indexOf'', ''join'', ''keys'', ''lastIndexOf'', ''map'', ''pop'', ''push'', ''reduce'',
      ''reduceRight'', ''reverse'', ''shift'', ''slice'', ''some'', ''sort'', ''splice'',
      ''toReversed'', ''toSorted'', ''toSpliced'', ''unshift'', ''values'', ''with'',
      ''contains'', ''anchor'', ''big'', ''blink'', ''bold'', ''charAt'', ''charCodeAt'',
      ''codePointAt'', ''endsWith'', ''fixed'', ''fontcolor'', ''fontsize'', ''isWellFormed'',
      ''italics'', ''link'', ''localeCompare'', ''match'', ''matchAll'', ''normalize'',
      ''padEnd'', ''padStart'', ''quote'', ''repeat'', ''replace'', ''replaceAll'', ''search'',
      ''small'', ''split'', ''startsWith'', ''strike'', ''sub'', ''substr'', ''substring'',
      ''sup'', ''toLocaleLowerCase'', ''toLocaleUpperCase'', ''toLowerCase'', ''toUpperCase'',
      ''toWellFormed'', ''trim'', ''trimEnd'', ''trimLeft'', ''trimRight'', ''trimStart'',
      ''toExponential'', ''toFixed'', ''toPrecision'']"

definition prototype_member :: "string \<Rightarrow> 'a res" where
  "prototype_member k = (if k \<in> set builtin_members then Inl Unsupported else Inr Undefined)"

text \<open>The elements of an array, or the code units of a string, as own properties by index.\<close>

definition elements :: "'b list \<Rightarrow> (string \<times> 'b) list" where
  "elements xs = zip (map show_nat [0 ..< length xs]) xs"

text \<open>
  Property read \<^verbatim>\<open>o[k]\<close>. Reading a property of \<^verbatim>\<open>undefined\<close> throws a TypeError. An
  object gives its own property, else the member of \<^verbatim>\<open>Object.prototype\<close> of that name,
  else \<^verbatim>\<open>undefined\<close>. An array has its elements and its length, a string its code units
  and its length; a primitive is read through its wrapper object.
\<close>

fun property :: "'a val \<Rightarrow> string \<Rightarrow> 'a res" where
  "property Undefined k = Inl TypeError"
| "property (VObject a ps) k = Inr (case map_of ps k of Some v \<Rightarrow> v | None \<Rightarrow> inherited k)"
| "property (VArray a xs) k =
     (case map_of (elements xs) k of
        Some v \<Rightarrow> Inr v
      | None \<Rightarrow> if k = ''length'' then Inr (VNum (int (length xs))) else prototype_member k)"
| "property (VStr s) k =
     (case map_of (elements s) k of
        Some c \<Rightarrow> Inr (VStr [c])
      | None \<Rightarrow> if k = ''length'' then Inr (VNum (int (length s))) else prototype_member k)"
| "property (VBool b) k = prototype_member k"
| "property (VNum n) k = prototype_member k"
| "property (VEntity e) k = Inl Unsupported"
| "property (VNative n) k = Inl Unsupported"

text \<open>Truthiness, as \<^verbatim>\<open>||\<close> tests it.\<close>

fun truthy :: "'a val \<Rightarrow> bool" where
  "truthy Undefined = False"
| "truthy (VBool b) = b"
| "truthy (VNum n) = (n \<noteq> 0)"
| "truthy (VStr s) = (s \<noteq> [])"
| "truthy (VEntity e) = True"
| "truthy (VArray a xs) = True"
| "truthy (VObject a ps) = True"
| "truthy (VNative n) = True"

text \<open>
  The property name a key value stands for in \<^verbatim>\<open>entities[key]\<close>. A number that is a safe
  integer (below \<open>2 ^ 53\<close> in absolute value) is rendered in decimal digits; the conversion
  of another number, or of an object, is not modelled.
\<close>

fun property_key :: "'a val \<Rightarrow> error + string" where
  "property_key (VStr s) = Inr s"
| "property_key (VNum n) = (if \<bar>n\<bar> < 9007199254740992 then Inr (show_int n) else Inl Unsupported)"
| "property_key Undefined = Inr ''undefined''"
| "property_key (VBool b) = Inr (if b then ''true'' else ''false'')"
| "property_key _ = Inl Unsupported"

text \<open>\<^verbatim>\<open>obj[key]\<close>: the receiver is checked before the key is converted.\<close>

definition index :: "'a val \<Rightarrow> 'a val \<Rightarrow> 'a res" where
  "index obj key =
     (if obj = Undefined then Inl TypeError
      else case property_key key of Inl e \<Rightarrow> Inl e | Inr k \<Rightarrow> property obj k)"

text \<open>The property name of an entity name that may be missing (\<^verbatim>\<open>cache[undefined]\<close>).\<close>

fun name_key :: "string option \<Rightarrow> string" where
  "name_key None = ''undefined''"
| "name_key (Some s) = s"

section \<open>The world: memoization cells, allocation, call counters\<close>

text \<open>
  Every memoized function of \<^verbatim>\<open>@ngrx/store\<close> closes over two private variables,
  \<^verbatim>\<open>lastArguments\<close> and \<^verbatim>\<open>lastResult\<close>. The model keeps them in a store of cells; a
  cell is allocated when the memoized function is created. \<open>invocations\<close> counts how often
  a memoized function ran the function it wraps, \<open>creator_calls\<close> how often the
  collection creator was called.
\<close>

record 'a world =
  cells :: "nat \<Rightarrow> ('a val list \<times> 'a val) option"
  next_cell :: nat
  next_addr :: nat
  invocations :: nat
  creator_calls :: nat

type_synonym 'a comp = "'a world \<Rightarrow> 'a res \<times> 'a world"
type_synonym 'a selector = "'a val \<Rightarrow> 'a comp"
type_synonym 'a projector = "'a val list \<Rightarrow> 'a comp"

text \<open>\<^verbatim>\<open>arguments[i] !== lastArguments[i]\<close> for some \<^verbatim>\<open>i < arguments.length\<close>.\<close>

fun changed :: "'a val list \<Rightarrow> 'a val list \<Rightarrow> bool" where
  "changed [] prev = False"
| "changed (a # args) [] = (a \<noteq> Undefined \<or> changed args [])"
| "changed (a # args) (b # prev) = (a \<noteq> b \<or> changed args prev)"

text \<open>
  Modelled from the spec: \<^verbatim>\<open>memoize\<close>, \<^verbatim>\<open>createSelector\<close> and
  \<^verbatim>\<open>createFeatureSelector\<close> of \<^verbatim>\<open>@ngrx/store\<close>, which the source imports. A memoized
  derivation caches its last input/output pair and recomputes only when the referential
  identity of an input changes. An exception of the wrapped function leaves the cell as it
  was.
\<close>

definition memoize :: "nat \<Rightarrow> 'a projector \<Rightarrow> 'a projector" where
  "memoize n t args w =
     (let compute = (case t args (w\<lparr>invocations := invocations w + 1\<rparr>) of
                       (Inl e, w') \<Rightarrow> (Inl e, w')
                     | (Inr r, w') \<Rightarrow> (Inr r, w'\<lparr>cells := (cells w')(n \<mapsto> (args, r))\<rparr>))
      in case cells w n of
           None \<Rightarrow> compute
         | Some (prev, r) \<Rightarrow> if changed args prev then compute else (Inr r, w))"

text \<open>\<^verbatim>\<open>selectors.map(fn => fn(state))\<close>, left to right, stopping at the first exception.\<close>

fun map_selectors :: "'a selector list \<Rightarrow> 'a val \<Rightarrow> 'a world \<Rightarrow> (error + 'a val list) \<times> 'a world" where
  "map_selectors [] s w = (Inr [], w)"
| "map_selectors (f # fs) s w =
     (case f s w of
        (Inl e, w1) \<Rightarrow> (Inl e, w1)
      | (Inr v, w1) \<Rightarrow>
          (case map_selectors fs s w1 of
             (Inl e, w2) \<Rightarrow> (Inl e, w2)
           | (Inr vs, w2) \<Rightarrow> (Inr (v # vs), w2)))"

text \<open>The \<open>i\<close>-th argument of a call; a missing argument is \<^verbatim>\<open>undefined\<close>.\<close>

definition arg :: "'a val list \<Rightarrow> nat \<Rightarrow> 'a val" where
  "arg args i = (if i < length args then args ! i else Undefined)"

text \<open>
  The selector made from the cells \<open>mp\<close> (memoized projector) and \<open>ms\<close> (memoized state
  function).
\<close>

definition memoizedState :: "nat \<Rightarrow> nat \<Rightarrow> 'a selector list \<Rightarrow> 'a projector \<Rightarrow> 'a selector" where
  "memoizedState mp ms selectors projector state =
     memoize ms
       (\<lambda>args w. case map_selectors selectors (arg args 0) w of
                 (Inl e, w1) \<Rightarrow> (Inl e, w1)
               | (Inr args, w1) \<Rightarrow> memoize mp projector args w1)
       [state]"

definition createSelector :: "'a selector list \<Rightarrow> 'a projector \<Rightarrow> 'a world \<Rightarrow> 'a selector \<times> 'a world" where
  "createSelector selectors projector w =
     (let mp = next_cell w; ms = next_cell w + 1
      in (memoizedState mp ms selectors projector, w\<lparr>next_cell := next_cell w + 2\<rparr>))"

definition createFeatureSelector :: "string \<Rightarrow> 'a world \<Rightarrow> 'a selector \<times> 'a world" where
  "createFeatureSelector featureName =
     createSelector [\<lambda>state w. (property state featureName, w)] (\<lambda>args w. (Inr (arg args 0), w))"

section \<open>The per-type configuration and the selectors factory\<close>

text \<open>
  \<^verbatim>\<open>Partial<EntityMetadata<T>>\<close>: every field may be missing. The filter function takes the
  entity list and the pattern; it is pure, and may build a new array, for which it gets the
  allocation counter. The additional collection state is an object, given by its
  properties in the order in which \<^verbatim>\<open>Object.keys\<close> enumerates them.
\<close>

type_synonym 'a EntityFilterFn = "'a val \<Rightarrow> 'a val \<Rightarrow> nat \<Rightarrow> 'a val \<times> nat"

record 'a EntityMetadata =
  entityName :: "string option"
  filterFn :: "'a EntityFilterFn option"
  additionalCollectionState :: "(string \<times> 'a val) list option"

text \<open>
  The collection creator is an injected collaborator (\<^verbatim>\<open>EntityCollectionCreator\<close>, not part
  of the source files at hand): a parameter, which gets the entity name and the allocation
  counter and returns a collection.
\<close>

type_synonym 'a EntityCollectionCreator = "string option \<Rightarrow> nat \<Rightarrow> 'a val \<times> nat"

record 'a EntitySelectorsFactory =
  selectEntityCache :: "'a selector"
  entityCollectionCreator :: "'a EntityCollectionCreator"

definition new_EntitySelectorsFactory ::
  "string \<Rightarrow> 'a EntityCollectionCreator \<Rightarrow> 'a world \<Rightarrow> 'a EntitySelectorsFactory \<times> 'a world" where
  "new_EntitySelectorsFactory cacheName creator w =
     (let (sel, w') = createFeatureSelector cacheName w
      in (\<lparr>selectEntityCache = sel, entityCollectionCreator = creator\<rparr>, w'))"

subsection \<open>createCollectionSelector\<close>

text \<open>
  \<^verbatim>\<open>(cache: EntityCache = {}) => cache[entityName] || this.entityCollectionCreator.create(entityName)\<close>.
  The default \<^verbatim>\<open>{}\<close> is used for the lookup only and does not escape.
\<close>

definition getCollection :: "'a EntityCollectionCreator \<Rightarrow> string option \<Rightarrow> 'a projector" where
  "getCollection creator name args w =
     (let cache = (if arg args 0 = Undefined then VObject (next_addr w) [] else arg args 0)
      in case property cache (name_key name) of
           Inl e \<Rightarrow> (Inl e, w)
         | Inr v \<Rightarrow>
             if truthy v then (Inr v, w)
             else (let (c, a) = creator name (next_addr w)
                   in (Inr c, w\<lparr>next_addr := a, creator_calls := creator_calls w + 1\<rparr>)))"

definition createCollectionSelector ::
  "'a EntitySelectorsFactory \<Rightarrow> string option \<Rightarrow> 'a world \<Rightarrow> 'a selector \<times> 'a world" where
  "createCollectionSelector this name =
     createSelector [selectEntityCache this] (getCollection (entityCollectionCreator this) name)"

subsection \<open>createCollectionSelectors\<close>

definition selectKeys :: "'a selector" where
  "selectKeys c w = (property c ''ids'', w)"

definition selectEntityMap :: "'a selector" where
  "selectEntityMap c w = (property c ''entities'', w)"

definition selectFilter :: "'a selector" where
  "selectFilter c w = (property c ''filter'', w)"

definition selectLoaded :: "'a selector" where
  "selectLoaded c w = (property c ''loaded'', w)"

definition selectLoading :: "'a selector" where
  "selectLoading c w = (property c ''loading'', w)"

definition selectOriginalValues :: "'a selector" where
  "selectOriginalValues c w = (property c ''originalValues'', w)"

text \<open>
  \<^verbatim>\<open>keys.map(key => entities[key] as T)\<close>: a new array. Of the values of the model only
  arrays have a method \<^verbatim>\<open>map\<close>; on another value the call throws a TypeError, since
  \<^verbatim>\<open>keys.map\<close> is no function (or \<^verbatim>\<open>keys\<close> is \<^verbatim>\<open>undefined\<close>). Calling a member of an
  entity or a built-in function is not modelled.
\<close>

fun map_error :: "'a val \<Rightarrow> error" where
  "map_error (VEntity e) = Unsupported"
| "map_error (VNative n) = Unsupported"
| "map_error (VObject a ps) =
     (case map_of ps ''map'' of
        Some (VEntity e) \<Rightarrow> Unsupported
      | Some (VNative n) \<Rightarrow> Unsupported
      | _ \<Rightarrow> TypeError)"
| "map_error _ = TypeError"

fun map_index :: "'a val \<Rightarrow> 'a val list \<Rightarrow> error + 'a val list" where
  "map_index entities [] = Inr []"
| "map_index entities (key # keys) =
     (case index entities key of
        Inl e \<Rightarrow> Inl e
      | Inr v \<Rightarrow> (case map_index entities keys of Inl e \<Rightarrow> Inl e | Inr vs \<Rightarrow> Inr (v # vs)))"

definition entitiesProjector :: "'a projector" where
  "entitiesProjector args w =
     (case arg args 0 of
        VArray a keys \<Rightarrow>
          (case map_index (arg args 1) keys of
             Inl e \<Rightarrow> (Inl e, w)
           | Inr es \<Rightarrow> (Inr (VArray (next_addr w) es), w\<lparr>next_addr := next_addr w + 1\<rparr>))
      | keys \<Rightarrow> (Inl (map_error keys), w))"

text \<open>
  \<^verbatim>\<open>keys.length\<close>: the length of an array or a string, the own property of an object;
  numbers and booleans have none.
\<close>

fun length_of :: "'a val \<Rightarrow> 'a res" where
  "length_of (VArray a xs) = Inr (VNum (int (length xs)))"
| "length_of (VStr s) = Inr (VNum (int (length s)))"
| "length_of (VObject a ps) = property (VObject a ps) ''length''"
| "length_of Undefined = Inl TypeError"
| "length_of (VBool b) = Inr Undefined"
| "length_of (VNum n) = Inr Undefined"
| "length_of (VEntity e) = Inl Unsupported"
| "length_of (VNative n) = Inl Unsupported"

definition countProjector :: "'a projector" where
  "countProjector args w = (length_of (arg args 0), w)"

definition filterProjector :: "'a EntityFilterFn \<Rightarrow> 'a projector" where
  "filterProjector f args w =
     (let (r, a) = f (arg args 0) (arg args 1) (next_addr w) in (Inr r, w\<lparr>next_addr := a\<rparr>))"

text \<open>
  The nine constants that \<^verbatim>\<open>createCollectionSelectors\<close> defines before it looks at the
  additional collection state, under the names of the returned object literal.
\<close>

definition builtinSelectors ::
  "'a EntityFilterFn option \<Rightarrow> 'a world \<Rightarrow> (string \<times> 'a selector) list \<times> 'a world" where
  "builtinSelectors fn w =
     (let (selectEntities, w1) = createSelector [selectKeys, selectEntityMap] entitiesProjector w;
          (selectCount, w2) = createSelector [selectKeys] countProjector w1;
          (selectFilteredEntities, w3) =
             (case fn of
                Some f \<Rightarrow> createSelector [selectEntities, selectFilter] (filterProjector f) w2
              | None \<Rightarrow> (selectEntities, w2))
      in ([(''selectCount'', selectCount),
           (''selectEntities'', selectEntities),
           (''selectEntityMap'', selectEntityMap),
           (''selectFilter'', selectFilter),
           (''selectFilteredEntities'', selectFilteredEntities),
           (''selectKeys'', selectKeys),
           (''selectLoaded'', selectLoaded),
           (''selectLoading'', selectLoading),
           (''selectOriginalValues'', selectOriginalValues)], w3))"

text \<open>
  \<^verbatim>\<open>c.toUpperCase()\<close> on a string of one character. For an ASCII character (a code unit
  below 128) the result is again one character: a letter from \<^verbatim>\<open>a\<close> to \<^verbatim>\<open>z\<close> (codes 97
  to 122) loses 32, which is bit 5 of its code, and any other ASCII character stays. The
  upper case of a character outside ASCII (which may be a character above 255, or two
  characters) is not modelled.
\<close>

definition ascii :: "char \<Rightarrow> bool" where
  [simp]: "ascii c = ((of_char c :: nat) < 128)"

definition upper_ascii :: "char \<Rightarrow> char" where
  "upper_ascii c =
     (if 97 \<le> (of_char c :: nat) \<and> (of_char c :: nat) \<le> 122
      then (case c of Char b0 b1 b2 b3 b4 b5 b6 b7 \<Rightarrow> Char b0 b1 b2 b3 b4 False b6 b7)
      else c)"

definition toUpperCase :: "char \<Rightarrow> error + char" where
  "toUpperCase c = (if ascii c then Inr (upper_ascii c) else Inl Unsupported)"

text \<open>
  \<^verbatim>\<open>'select' + k[0].toUpperCase() + k.slice(1)\<close>. For the empty string \<^verbatim>\<open>k[0]\<close> is
  \<^verbatim>\<open>undefined\<close>, and the call of \<^verbatim>\<open>toUpperCase\<close> on it throws.
\<close>

fun selectorName :: "string \<Rightarrow> error + string" where
  "selectorName [] = Inl TypeError"
| "selectorName (c # cs) =
     (case toUpperCase c of Inl e \<Rightarrow> Inl e | Inr u \<Rightarrow> Inr (''select'' @ u # cs))"

text \<open>A field name for which the selector name is formed: not empty, ASCII at the front.\<close>

fun nameable :: "string \<Rightarrow> bool" where
  "nameable [] = False"
| "nameable (c # cs) = ascii c"

definition extraSelector :: "string \<Rightarrow> 'a selector" where
  "extraSelector k c w = (property c k, w)"

text \<open>
  The \<^verbatim>\<open>forEach\<close> over \<^verbatim>\<open>Object.keys(extra)\<close>. An assignment to a property of an object
  replaces the value of a property that exists and appends a new one otherwise
  (\<open>AList.update\<close>).
\<close>

fun extraSelectors :: "string list \<Rightarrow> (string \<times> 'a selector) list \<Rightarrow> error + (string \<times> 'a selector) list" where
  "extraSelectors [] acc = Inr acc"
| "extraSelectors (k # ks) acc =
     (case selectorName k of
        Inl e \<Rightarrow> Inl e
      | Inr name \<Rightarrow> extraSelectors ks (AList.update name (extraSelector k) acc))"

text \<open>Object spread \<^verbatim>\<open>{...base, ...extra}\<close>: the properties of \<open>extra\<close> are assigned in order.\<close>

definition spread :: "(string \<times> 'b) list \<Rightarrow> (string \<times> 'b) list \<Rightarrow> (string \<times> 'b) list" where
  "spread base extra = foldl (\<lambda>acc (k, v). AList.update k v acc) base extra"

definition Object_keys :: "(string \<times> 'b) list \<Rightarrow> string list" where
  "Object_keys ps = map fst ps"

text \<open>
  \<^verbatim>\<open>const extra = metadata.additionalCollectionState || {}\<close> and \<^verbatim>\<open>Object.keys(extra)\<close>.
\<close>

definition declaredState :: "'a EntityMetadata \<Rightarrow> (string \<times> 'a val) list" where
  "declaredState metadata =
     (case additionalCollectionState metadata of Some ps \<Rightarrow> ps | None \<Rightarrow> [])"

definition declaredFields :: "'a EntityMetadata \<Rightarrow> string list" where
  "declaredFields metadata = Object_keys (declaredState metadata)"

definition createCollectionSelectors ::
  "'a EntityMetadata \<Rightarrow> 'a world \<Rightarrow> (error + (string \<times> 'a selector) list) \<times> 'a world" where
  "createCollectionSelectors metadata w =
     (let (builtin, w1) = builtinSelectors (filterFn metadata) w
      in case extraSelectors (declaredFields metadata) [] of
           Inl e \<Rightarrow> (Inl e, w1)
         | Inr ex \<Rightarrow> (Inr (spread builtin ex), w1))"

subsection \<open>create\<close>

text \<open>
  The returned object \<^verbatim>\<open>{entityName, selectCollection, ...entitySelectors}\<close>: the name, and
  the selectors by property name (every name of a selector starts with \<^verbatim>\<open>select\<close>, so none
  is \<^verbatim>\<open>entityName\<close>).
\<close>

record 'a EntitySelectors =
  rootEntityName :: "string option"
  rootSelectors :: "(string \<times> 'a selector) list"

definition memberProjector :: "'a selector \<Rightarrow> 'a projector" where
  "memberProjector m args = m (arg args 0)"

text \<open>
  The \<^verbatim>\<open>forEach\<close> over \<^verbatim>\<open>Object.keys(collectionSelectors)\<close>, each key with its value
  \<^verbatim>\<open>collectionSelectors[k]\<close>.
\<close>

fun entitySelectors ::
  "'a selector \<Rightarrow> (string \<times> 'a selector) list \<Rightarrow> (string \<times> 'a selector) list \<Rightarrow> 'a world
     \<Rightarrow> (string \<times> 'a selector) list \<times> 'a world" where
  "entitySelectors selectCollection [] acc w = (acc, w)"
| "entitySelectors selectCollection ((k, m) # rest) acc w =
     (let (sel, w1) = createSelector [selectCollection] (memberProjector m) w
      in entitySelectors selectCollection rest (AList.update k sel acc) w1)"

definition create ::
  "'a EntitySelectorsFactory \<Rightarrow> 'a EntityMetadata \<Rightarrow> 'a world \<Rightarrow> (error + 'a EntitySelectors) \<times> 'a world" where
  "create this metadata w =
     (let (selectCollection, w1) = createCollectionSelector this (entityName metadata) w
      in case createCollectionSelectors metadata w1 of
           (Inl e, w2) \<Rightarrow> (Inl e, w2)
         | (Inr collectionSelectors, w2) \<Rightarrow>
             (let (es, w3) = entitySelectors selectCollection collectionSelectors [] w2
              in (Inr \<lparr>rootEntityName = entityName metadata,
                       rootSelectors = spread [(''selectCollection'', selectCollection)] es\<rparr>, w3)))"

section \<open>Auxiliary notions for the statements\<close>

text \<open>
  Calling the property \<open>name\<close> of an object of selectors. A name that is neither an own
  property nor a member of \<^verbatim>\<open>Object.prototype\<close> is \<^verbatim>\<open>undefined\<close>, and the call throws;
  the call of an inherited built-in is not modelled.
\<close>

definition invoke :: "(string \<times> 'a selector) list \<Rightarrow> string \<Rightarrow> 'a selector" where
  "invoke S name c w =
     (case map_of S name of
        Some sel \<Rightarrow> sel c w
      | None \<Rightarrow> (Inl (if name \<in> set Object_prototype then Unsupported else TypeError), w))"

text \<open>The last of the field names \<open>ks\<close> whose selector name is \<open>name\<close>.\<close>

fun lastField :: "string list \<Rightarrow> string \<Rightarrow> string option" where
  "lastField [] name = None"
| "lastField (k # ks) name =
     (case lastField ks name of
        Some k' \<Rightarrow> Some k'
      | None \<Rightarrow> if selectorName k = Inr name then Some k else None)"

definition builtinNames :: "string list" where
  "builtinNames =
     [''selectCount'', ''selectEntities'', ''selectEntityMap'', ''selectFilter'',
      ''selectFilteredEntities'', ''selectKeys'', ''selectLoaded'', ''selectLoading'',
      ''selectOriginalValues'']"

text \<open>A selector made by \<open>createSelector\<close>: a memoized function of the state.\<close>

definition is_memoized :: "'a selector \<Rightarrow> bool" where
  "is_memoized sel = (\<exists>n t. sel = (\<lambda>state. memoize n t [state]))"

text \<open>
  Modelled from the spec: the default collection of the Collection Creator, which is not
  part of the source files at hand. It has empty \<open>ids\<close>, empty \<open>entities\<close>, the empty
  filter, \<open>loaded\<close> and \<open>loading\<close> false, empty \<open>originalValues\<close>, and the declared
  default of every additional field.
\<close>

definition defaultCollection :: "(string \<times> 'a val) list \<Rightarrow> nat \<Rightarrow> 'a val" where
  "defaultCollection extra a =
     VObject a (spread [(''ids'', VArray (a + 1) []),
                        (''entities'', VObject (a + 2) []),
                        (''filter'', VStr []),
                        (''loaded'', VBool False),
                        (''loading'', VBool False),
                        (''originalValues'', VObject (a + 3) [])] extra)"

definition defaultCreator :: "(string \<times> 'a val) list \<Rightarrow> 'a EntityCollectionCreator" where
  "defaultCreator extra name a = (defaultCollection extra a, a + 4)"

subsection \<open>Example data\<close>

text \<open>Entities with an id and a name; a filter that keeps the names containing the pattern.\<close>

type_synonym hero = "int \<times> string"

fun starts_with :: "string \<Rightarrow> string \<Rightarrow> bool" where
  "starts_with s [] = True"
| "starts_with [] (p # ps) = False"
| "starts_with (c # cs) (p # ps) = (c = p \<and> starts_with cs ps)"

fun contains :: "string \<Rightarrow> string \<Rightarrow> bool" where
  "contains [] p = (p = [])"
| "contains (c # cs) p = (starts_with (c # cs) p \<or> contains cs p)"

definition nameFilter :: "hero EntityFilterFn" where
  "nameFilter entities pattern a =
     (case (entities, pattern) of
        (VArray t es, VStr p) \<Rightarrow>
          (VArray a (filter (\<lambda>e. case e of VEntity (i, n) \<Rightarrow> contains n p | _ \<Rightarrow> False) es), a + 1)
      | _ \<Rightarrow> (entities, a))"

definition example_world :: "hero world" where
  "example_world =
     \<lparr>cells = (\<lambda>n. None), next_cell = 0, next_addr = 100, invocations = 0, creator_calls = 0\<rparr>"

definition example_collection :: "hero val" where
  "example_collection =
     VObject 10
       [(''ids'', VArray 11 [VNum 1, VNum 2]),
        (''entities'', VObject 12 [(''1'', VEntity (1, ''a'')), (''2'', VEntity (2, ''b''))]),
        (''filter'', VStr ''a''),
        (''loaded'', VBool True),
        (''loading'', VBool False),
        (''originalValues'', VObject 13 []),
        (''foo'', VStr ''x''),
        (''Foo'', VStr ''y'')]"

definition example_metadata :: "hero EntityMetadata" where
  "example_metadata =
     \<lparr>entityName = Some ''Hero'', filterFn = None,
      additionalCollectionState = Some [(''loadedAt'', VNum 0)]\<rparr>"

text \<open>The object of selectors that a build returned; none when the build threw.\<close>

definition selectorsOf :: "(error + (string \<times> 'a selector) list) \<times> 'a world \<Rightarrow> (string \<times> 'a selector) list" where
  "selectorsOf r = (case fst r of Inr S \<Rightarrow> S | Inl e \<Rightarrow> [])"

definition colliding_metadata :: "hero EntityMetadata" where
  "colliding_metadata =
     \<lparr>entityName = Some ''Hero'', filterFn = None,
      additionalCollectionState = Some [(''count'', VNum 0)]\<rparr>"

definition blank_metadata :: "hero EntityMetadata" where
  "blank_metadata =
     \<lparr>entityName = Some ''Hero'', filterFn = None,
      additionalCollectionState = Some [([], VNum 0)]\<rparr>"

definition case_metadata :: "hero EntityMetadata" where
  "case_metadata =
     \<lparr>entityName = Some ''Hero'', filterFn = None,
      additionalCollectionState = Some [(''foo'', VNum 1), (''Foo'', VNum 2)]\<rparr>"

definition nameless_metadata :: "hero EntityMetadata" where
  "nameless_metadata =
     \<lparr>entityName = None, filterFn = None, additionalCollectionState = None\<rparr>"

definition example_factory :: "hero EntitySelectorsFactory" where
  "example_factory = fst (new_EntitySelectorsFactory ''entityCache'' (defaultCreator []) example_world)"

definition factory_world :: "hero world" where
  "factory_world = snd (new_EntitySelectorsFactory ''entityCache'' (defaultCreator []) example_world)"

text \<open>
  The cell that \<open>create\<close> allocates for the memoized projector of the root selector of the
  property \<open>name\<close>, when the cells are allocated from \<open>n\<close> on: two cells for every
  property of the object of collection selectors, in the order of the properties.
\<close>

fun rootCell :: "(string \<times> 'b) list \<Rightarrow> nat \<Rightarrow> string \<Rightarrow> nat" where
  "rootCell [] n name = n"
| "rootCell ((k, m) # rest) n name = (if k = name then n else rootCell rest (n + 2) name)"

text \<open>
  A selector recalls its result: a second call on the same input, right after a call that
  returned a value, returns the same value and leaves the world as it is. So nothing is
  allocated, the count of invocations does not grow, and the collection creator is not
  called.
\<close>

definition recalls :: "'a selector \<Rightarrow> bool" where
  "recalls sel = (\<forall>s w v w'. sel s w = (Inr v, w') \<longrightarrow> sel s w' = (Inr v, w'))"

definition example_state :: "hero val" where
  "example_state =
     VObject 1 [(''entityCache'', VObject 2 [(''Hero'', example_collection)]), (''session'', VNum 7)]"

text \<open>A state whose cache has no collection of heroes.\<close>

definition villain_state :: "hero val" where
  "villain_state =
     VObject 3 [(''entityCache'', VObject 4 [(''Villain'', VObject 5 [])]), (''session'', VNum 7)]"

definition example_accessor :: "hero selector" where
  "example_accessor = fst (createCollectionSelector example_factory (Some ''Hero'') factory_world)"

definition accessor_world :: "hero world" where
  "accessor_world = snd (createCollectionSelector example_factory (Some ''Hero'') factory_world)"

subsection \<open>Coherence of the memoization cells\<close>

text \<open>
  A specification of the cells says, for every cell, which pairs of arguments and result
  it may hold. A world is coherent when every cell holds such a pair. A computation is
  sound for a postcondition when, started in a coherent world, it ends in a coherent world
  with a result that satisfies the postcondition.
\<close>

type_synonym 'a cellspec = "nat \<Rightarrow> 'a val list \<Rightarrow> 'a val \<Rightarrow> bool"

definition coherent :: "'a cellspec \<Rightarrow> 'a world \<Rightarrow> bool" where
  "coherent spec w = (\<forall>n prev r. cells w n = Some (prev, r) \<longrightarrow> spec n prev r)"

definition sound :: "'a cellspec \<Rightarrow> ('a world \<Rightarrow> 'r \<times> 'a world) \<Rightarrow> ('r \<Rightarrow> bool) \<Rightarrow> bool" where
  "sound spec f Q = (\<forall>w r w'. coherent spec w \<longrightarrow> f w = (r, w') \<longrightarrow> coherent spec w' \<and> Q r)"

text \<open>The cells from \<open>next_cell\<close> on are not in use.\<close>

definition unused :: "'a world \<Rightarrow> bool" where
  "unused w = (\<forall>n \<ge> next_cell w. cells w n = None)"

text \<open>The worlds that calls of the selectors in \<open>F\<close> lead to from the world \<open>w0\<close>.\<close>

inductive reachable :: "'a selector set \<Rightarrow> 'a world \<Rightarrow> 'a world \<Rightarrow> bool" for F w0 where
  start: "reachable F w0 w0"
| call: "reachable F w0 w \<Longrightarrow> f \<in> F \<Longrightarrow> f x w = (r, w') \<Longrightarrow> reachable F w0 w'"

subsection \<open>What the member selectors select\<close>

text \<open>
  A result answers a relation \<open>G\<close> of possible values when it is a value that \<open>G\<close>
  admits, or an error where \<open>G\<close> admits no value.
\<close>

definition answers :: "('a val \<Rightarrow> bool) \<Rightarrow> 'a res \<Rightarrow> bool" where
  "answers G r = (case r of Inr v \<Rightarrow> G v | Inl e \<Rightarrow> \<not> (\<exists>v. G v))"

text \<open>An array (with any tag) of the values that the keys have in \<open>es\<close>, in the order of the keys.\<close>

definition entitiesOf :: "'a val \<Rightarrow> 'a val \<Rightarrow> 'a val \<Rightarrow> bool" where
  "entitiesOf ks es r = (\<exists>t keys vs a. ks = VArray t keys \<and> map_index es keys = Inr vs \<and> r = VArray a vs)"

definition selectsEntities :: "'a val \<Rightarrow> 'a val \<Rightarrow> bool" where
  "selectsEntities c r =
     (\<exists>ks es. property c ''ids'' = Inr ks \<and> property c ''entities'' = Inr es \<and> entitiesOf ks es r)"

definition selectsCount :: "'a val \<Rightarrow> 'a val \<Rightarrow> bool" where
  "selectsCount c r = (\<exists>ks. property c ''ids'' = Inr ks \<and> length_of ks = Inr r)"

definition selectsFiltered :: "'a EntityFilterFn \<Rightarrow> 'a val \<Rightarrow> 'a val \<Rightarrow> bool" where
  "selectsFiltered f c r =
     (\<exists>es p a. selectsEntities c es \<and> property c ''filter'' = Inr p \<and> r = fst (f es p a))"

text \<open>
  The specification of the cells of the member selectors that \<open>builtinSelectors\<close> makes
  when the cells are allocated from \<open>n0\<close> on. It does not restrict any other cell.
\<close>

definition memberSpec :: "'a EntityFilterFn option \<Rightarrow> nat \<Rightarrow> 'a cellspec" where
  "memberSpec fn n0 n prev r =
     (if n = n0 then (\<exists>ks es. prev = [ks, es] \<and> entitiesOf ks es r)
      else if n = n0 + 1 then (\<exists>c. prev = [c] \<and> selectsEntities c r)
      else if n = n0 + 2 then (\<exists>ks. prev = [ks] \<and> length_of ks = Inr r)
      else if n = n0 + 3 then (\<exists>c. prev = [c] \<and> selectsCount c r)
      else (case fn of
              None \<Rightarrow> True
            | Some f \<Rightarrow>
                if n = n0 + 4 then (\<exists>es p a. prev = [es, p] \<and> r = fst (f es p a))
                else if n = n0 + 5 then (\<exists>c. prev = [c] \<and> selectsFiltered f c r)
                else True))"

text \<open>
  A collection as it is typed: an object whose \<open>ids\<close> is an array of strings and
  numbers (safe integers) and whose \<open>entities\<close> is an object.
\<close>

fun is_key :: "'a val \<Rightarrow> bool" where
  "is_key (VStr s) = True"
| "is_key (VNum n) = (\<bar>n\<bar> < 9007199254740992)"
| "is_key _ = False"

definition is_collection :: "'a val \<Rightarrow> bool" where
  "is_collection c =
     (case c of
        VObject a ps \<Rightarrow>
          (case map_of ps ''ids'' of
             Some (VArray t keys) \<Rightarrow>
               list_all is_key keys
               \<and> (case map_of ps ''entities'' of Some (VObject t' es) \<Rightarrow> True | _ \<Rightarrow> False)
           | _ \<Rightarrow> False)
      | _ \<Rightarrow> False)"

text \<open>The member selectors of the example configuration, and of one with a filter function.\<close>

definition example_members :: "(string \<times> hero selector) list" where
  "example_members = selectorsOf (createCollectionSelectors example_metadata example_world)"

definition members_world :: "hero world" where
  "members_world = snd (createCollectionSelectors example_metadata example_world)"

definition filtering_metadata :: "hero EntityMetadata" where
  "filtering_metadata =
     \<lparr>entityName = Some ''Hero'', filterFn = Some nameFilter,
      additionalCollectionState = Some [(''loadedAt'', VNum 0)]\<rparr>"

definition filtering_members :: "(string \<times> hero selector) list" where
  "filtering_members = selectorsOf (createCollectionSelectors filtering_metadata example_world)"

definition filtering_world :: "hero world" where
  "filtering_world = snd (createCollectionSelectors filtering_metadata example_world)"

subsection \<open>What the collection accessor selects\<close>

definition selectsCache :: "string \<Rightarrow> 'a val \<Rightarrow> 'a val \<Rightarrow> bool" where
  "selectsCache cacheName s r = (property s cacheName = Inr r)"

text \<open>
  The stored value of the name when it is truthy, and otherwise a collection that the
  creator makes for the name.
\<close>

definition getsCollection :: "'a EntityCollectionCreator \<Rightarrow> string option \<Rightarrow> 'a val \<Rightarrow> 'a val \<Rightarrow> bool" where
  "getsCollection creator name cache r =
     (\<exists>v. property (if cache = Undefined then VObject 0 [] else cache) (name_key name) = Inr v
        \<and> (if truthy v then r = v else \<exists>n. r = fst (creator name n)))"

definition selectsCollection ::
  "string \<Rightarrow> 'a EntityCollectionCreator \<Rightarrow> string option \<Rightarrow> 'a val \<Rightarrow> 'a val \<Rightarrow> bool" where
  "selectsCollection cacheName creator name s r =
     (\<exists>cache. property s cacheName = Inr cache \<and> getsCollection creator name cache r)"

text \<open>
  The specification of the cells of a factory made with the cells from \<open>f\<close> on, of the
  collection accessor made right after it, and of the member selectors made after that.
\<close>

definition lowerSpec ::
  "string \<Rightarrow> 'a EntityCollectionCreator \<Rightarrow> string option \<Rightarrow> 'a EntityFilterFn option \<Rightarrow> nat
     \<Rightarrow> 'a cellspec" where
  "lowerSpec cacheName creator name fn f n prev r =
     (if n = f then (\<exists>x. prev = [x] \<and> r = x)
      else if n = f + 1 then (\<exists>s. prev = [s] \<and> selectsCache cacheName s r)
      else if n = f + 2 then (\<exists>cache. prev = [cache] \<and> getsCollection creator name cache r)
      else if n = f + 3 then (\<exists>s. prev = [s] \<and> selectsCollection cacheName creator name s r)
      else memberSpec fn (f + 4) n prev r)"

text \<open>
  A global state as it is typed: an object whose entity cache, if it has one, is an object
  of objects. \<open>storedCollection\<close> is the collection that the cache of a state holds for
  an entity name.
\<close>

fun is_object :: "'a val \<Rightarrow> bool" where
  "is_object (VObject a ps) = True"
| "is_object _ = False"

definition is_state :: "string \<Rightarrow> 'a val \<Rightarrow> bool" where
  "is_state cacheName s =
     (case s of
        VObject a ps \<Rightarrow>
          (case map_of ps cacheName of
             None \<Rightarrow> True
           | Some Undefined \<Rightarrow> True
           | Some (VObject t cs) \<Rightarrow> list_all (\<lambda>p. is_object (snd p)) cs
           | Some _ \<Rightarrow> False)
      | _ \<Rightarrow> False)"

definition storedCollection :: "string \<Rightarrow> string option \<Rightarrow> 'a val \<Rightarrow> 'a val option" where
  "storedCollection cacheName name s =
     (case s of
        VObject a ps \<Rightarrow>
          (case map_of ps cacheName of
             Some (VObject t cs) \<Rightarrow> map_of cs (name_key name)
           | _ \<Rightarrow> None)
      | _ \<Rightarrow> None)"

text \<open>A computation writes no cell outside \<open>A\<close> and allocates no cell.\<close>

definition modifies :: "nat set \<Rightarrow> ('a world \<Rightarrow> 'r \<times> 'a world) \<Rightarrow> bool" where
  "modifies A f =
     (\<forall>w r w'. f w = (r, w') \<longrightarrow> next_cell w' = next_cell w \<and> (\<forall>n. n \<notin> A \<longrightarrow> cells w' n = cells w n))"

subsection \<open>The invariant of the root selectors\<close>

text \<open>
  \<open>outcome spec m c r\<close>: the selector \<open>m\<close> returns \<open>r\<close> on \<open>c\<close> in some world that is
  coherent for \<open>spec\<close>.
\<close>

definition outcome :: "'a cellspec \<Rightarrow> 'a selector \<Rightarrow> 'a val \<Rightarrow> 'a res \<Rightarrow> bool" where
  "outcome spec m c r = (\<exists>w w'. coherent spec w \<and> m c w = (r, w'))"

text \<open>
  The two cells \<open>mp\<close> and \<open>mp + 1\<close> of the root selector of a member selector \<open>m\<close>: the
  cell of the projector holds a collection and a value that \<open>m\<close> returns on it; the cell
  of the state function holds a state and the value of the projector cell, which holds a
  collection that the accessor selects (\<open>A\<close>) in that state.
\<close>

definition rootInv ::
  "'a cellspec \<Rightarrow> ('a val \<Rightarrow> 'a val \<Rightarrow> bool) \<Rightarrow> nat \<Rightarrow> 'a selector \<Rightarrow> 'a world \<Rightarrow> bool" where
  "rootInv L A mp m w =
     ((\<forall>prev r. cells w mp = Some (prev, r) \<longrightarrow> (\<exists>c. prev = [c] \<and> outcome L m c (Inr r)))
      \<and> (\<forall>prev r. cells w (mp + 1) = Some (prev, r) \<longrightarrow>
            (\<exists>s c. prev = [s] \<and> A s c \<and> cells w mp = Some ([c], r))))"

definition rootsInv ::
  "'a cellspec \<Rightarrow> ('a val \<Rightarrow> 'a val \<Rightarrow> bool) \<Rightarrow> (string \<times> 'a selector) list \<Rightarrow> nat \<Rightarrow> 'a world \<Rightarrow> bool" where
  "rootsInv L A S r0 w =
     (coherent L w \<and> (\<forall>k m. map_of S k = Some m \<longrightarrow> rootInv L A (rootCell S r0 k) m w))"

text \<open>
  The selectors and cells of a factory that is made with the cells from \<open>f\<close> on and whose
  \<open>create\<close> is called right after: the selector of the entity cache, the collection
  accessor, and the first cell of the root selectors.
\<close>

definition cacheSelector :: "string \<Rightarrow> nat \<Rightarrow> 'a selector" where
  "cacheSelector cacheName f =
     memoizedState f (f + 1) [\<lambda>state w. (property state cacheName, w)] (\<lambda>args w. (Inr (arg args 0), w))"

definition collectionSelector ::
  "string \<Rightarrow> 'a EntityCollectionCreator \<Rightarrow> string option \<Rightarrow> nat \<Rightarrow> 'a selector" where
  "collectionSelector cacheName creator name f =
     memoizedState (f + 2) (f + 3) [cacheSelector cacheName f] (getCollection creator name)"

definition rootBase :: "'a EntityFilterFn option \<Rightarrow> nat \<Rightarrow> nat" where
  "rootBase fn f = f + 4 + (case fn of None \<Rightarrow> 4 | Some g \<Rightarrow> 6)"

text \<open>The set of root selectors that a build returned, and the world after the build.\<close>

definition rootsOf :: "(error + 'a EntitySelectors) \<times> 'a world \<Rightarrow> 'a EntitySelectors" where
  "rootsOf r = (case fst r of Inr rs \<Rightarrow> rs | Inl e \<Rightarrow> \<lparr>rootEntityName = None, rootSelectors = []\<rparr>)"

definition example_roots :: "hero EntitySelectors" where
  "example_roots = rootsOf (create example_factory example_metadata factory_world)"

definition roots_world :: "hero world" where
  "roots_world = snd (create example_factory example_metadata factory_world)"

text \<open>A configuration with an additional field \<open>collection\<close>, and a state whose heroes have it.\<close>

definition collection_metadata :: "hero EntityMetadata" where
  "collection_metadata =
     \<lparr>entityName = Some ''Hero'', filterFn = None,
      additionalCollectionState = Some [(''collection'', VNum 0)]\<rparr>"

definition shadowed_roots :: "hero EntitySelectors" where
  "shadowed_roots = rootsOf (create example_factory collection_metadata factory_world)"

definition shadowed_world :: "hero world" where
  "shadowed_world = snd (create example_factory collection_metadata factory_world)"

definition shadow_collection :: "hero val" where
  "shadow_collection =
     VObject 20 [(''ids'', VArray 21 []), (''entities'', VObject 22 []), (''collection'', VNum 5)]"

definition shadow_state :: "hero val" where
  "shadow_state = VObject 6 [(''entityCache'', VObject 7 [(''Hero'', shadow_collection)])]"

text \<open>A state with the same collection of heroes, a new cache object and other content.\<close>

definition other_state :: "hero val" where
  "other_state =
     VObject 8 [(''entityCache'', VObject 9 [(''Hero'', example_collection), (''Villain'', VObject 5 [])]),
                (''session'', VNum 8)]"

text \<open>
  The root selectors of the configuration without entity name, and a state whose cache
  holds a collection under the name \<open>undefined\<close>.
\<close>

definition nameless_roots :: "hero EntitySelectors" where
  "nameless_roots = rootsOf (create example_factory nameless_metadata factory_world)"

definition nameless_world :: "hero world" where
  "nameless_world = snd (create example_factory nameless_metadata factory_world)"

definition undefined_state :: "hero val" where
  "undefined_state = VObject 30 [(''entityCache'', VObject 31 [(''undefined'', shadow_collection)])]"

text \<open>The collection accessor of the entity name \<open>constructor\<close>.\<close>

definition constructor_accessor :: "hero selector" where
  "constructor_accessor = fst (createCollectionSelector example_factory (Some ''constructor'') factory_world)"

definition constructor_world :: "hero world" where
  "constructor_world = snd (createCollectionSelector example_factory (Some ''constructor'') factory_world)"

section \<open>Properties\<close>

subsection \<open>Memoized functions\<close>

lemma changed_same [simp]: "\<not> changed args args"
  by (induction args) auto

lemma memoize_repeat:
  assumes "memoize n t args w = (Inr v, w')"
  shows "memoize n t args w' = (Inr v, w')"
proof (cases "cells w n")
  case None
  with assms show ?thesis
    by (auto simp: memoize_def Let_def split: prod.splits sum.splits)
next
  case (Some p)
  obtain prev r where p: "p = (prev, r)" by (cases p)
  show ?thesis
  proof (cases "changed args prev")
    case True
    with assms Some p show ?thesis
      by (auto simp: memoize_def Let_def split: prod.splits sum.splits)
  next
    case False
    with assms Some p show ?thesis
      by (auto simp: memoize_def Let_def)
  qed
qed

lemma is_memoized_repeat:
  assumes "is_memoized sel" and "sel c w = (Inr v, w')"
  shows "sel c w' = (Inr v, w')"
  using assms unfolding is_memoized_def by (auto dest: memoize_repeat)

lemma is_memoized_memoizedState [simp]: "is_memoized (memoizedState mp ms sels proj)"
  unfolding is_memoized_def memoizedState_def by blast

lemma is_memoized_createSelector: "is_memoized (fst (createSelector sels proj w))"
  by (simp add: createSelector_def Let_def)

subsection \<open>The selectors of the additional collection state\<close>

lemma selectorName_Cons [simp]:
  "selectorName (c # cs) =
     (if ascii c then Inr (''select'' @ upper_ascii c # cs) else Inl Unsupported)"
  by (simp add: toUpperCase_def)

declare selectorName.simps(2) [simp del]

lemma selectorName_nameable:
  "nameable k \<Longrightarrow> selectorName k = Inr (''select'' @ upper_ascii (hd k) # tl k)"
  by (cases k) simp_all

lemma selectorName_Inr_nameable: "selectorName k = Inr name \<Longrightarrow> nameable k"
  by (cases k) (simp_all split: if_splits)

lemma selectorName_Inl: "\<not> nameable k \<Longrightarrow> \<exists>e. selectorName k = Inl e"
  by (cases k) simp_all

lemma extraSelectors_Inr:
  "list_all nameable ks \<Longrightarrow> \<exists>ex. extraSelectors ks acc = Inr ex"
proof (induction ks arbitrary: acc)
  case Nil
  show ?case by simp
next
  case (Cons k ks)
  from Cons.prems have "nameable k" and "list_all nameable ks" by simp_all
  with Cons.IH show ?case by (simp add: selectorName_nameable)
qed

lemma extraSelectors_Inl:
  "\<not> list_all nameable ks \<Longrightarrow> \<exists>e. extraSelectors ks acc = Inl e"
proof (induction ks arbitrary: acc)
  case Nil
  then show ?case by simp
next
  case (Cons k ks)
  show ?case
  proof (cases "nameable k")
    case True
    with Cons.prems have "\<not> list_all nameable ks" by simp
    from Cons.IH [OF this] True show ?thesis by (simp add: selectorName_nameable)
  next
    case False
    from selectorName_Inl [OF this] show ?thesis by auto
  qed
qed

lemma extraSelectors_nameable:
  "extraSelectors ks acc = Inr ex \<Longrightarrow> list_all nameable ks"
  using extraSelectors_Inl [of ks acc] by auto

lemma extraSelectors_map_of:
  "extraSelectors ks acc = Inr ex \<Longrightarrow>
   map_of ex name =
     (case lastField ks name of Some k \<Rightarrow> Some (extraSelector k) | None \<Rightarrow> map_of acc name)"
proof (induction ks arbitrary: acc)
  case Nil
  then show ?case by simp
next
  case (Cons k ks)
  from extraSelectors_nameable [OF Cons.prems] have "nameable k" by simp
  then have n: "selectorName k = Inr (''select'' @ upper_ascii (hd k) # tl k)"
    by (rule selectorName_nameable)
  from Cons.prems n
  have "extraSelectors ks (AList.update (''select'' @ upper_ascii (hd k) # tl k) (extraSelector k) acc) = Inr ex"
    by simp
  from Cons.IH [OF this] n show ?case
    by (auto simp: update_conv' split: option.splits)
qed

lemma extraSelectors_distinct:
  "extraSelectors ks acc = Inr ex \<Longrightarrow> distinct (map fst acc) \<Longrightarrow> distinct (map fst ex)"
proof (induction ks arbitrary: acc)
  case Nil
  then show ?case by simp
next
  case (Cons k ks)
  from extraSelectors_nameable [OF Cons.prems(1)] have "nameable k" by simp
  then have n: "selectorName k = Inr (''select'' @ upper_ascii (hd k) # tl k)"
    by (rule selectorName_nameable)
  from Cons.prems n
  have "extraSelectors ks (AList.update (''select'' @ upper_ascii (hd k) # tl k) (extraSelector k) acc) = Inr ex"
    by simp
  from Cons.IH [OF this] Cons.prems(2) show ?case
    by (simp add: distinct_update)
qed

lemma lastField_Some:
  "lastField ks name = Some k \<Longrightarrow> k \<in> set ks \<and> selectorName k = Inr name"
  by (induction ks) (auto split: option.splits if_splits)

lemma lastField_None:
  "lastField ks name = None \<longleftrightarrow> (\<forall>k \<in> set ks. selectorName k \<noteq> Inr name)"
  by (induction ks) (auto split: option.splits if_splits)

lemma lastField_unique:
  assumes "k \<in> set ks" and "selectorName k = Inr name"
    and "\<forall>j \<in> set ks. selectorName j = Inr name \<longrightarrow> j = k"
  shows "lastField ks name = Some k"
proof (cases "lastField ks name")
  case None
  with assms(1,2) show ?thesis by (simp add: lastField_None)
next
  case (Some j)
  from lastField_Some [OF Some] assms(3) have "j = k" by blast
  with Some show ?thesis by simp
qed

lemma spread_snoc: "spread base (xs @ [(k, v)]) = AList.update k v (spread base xs)"
  by (simp add: spread_def)

lemma map_of_spread:
  "distinct (map fst extra) \<Longrightarrow>
   map_of (spread base extra) name =
     (case map_of extra name of Some v \<Rightarrow> Some v | None \<Rightarrow> map_of base name)"
proof (induction extra rule: rev_induct)
  case Nil
  show ?case by (simp add: spread_def)
next
  case (snoc p xs)
  obtain k v where p: "p = (k, v)" by (cases p)
  from snoc.prems p have d: "distinct (map fst xs)" and k: "k \<notin> fst ` set xs" by auto
  from k have none: "map_of xs k = None" by (simp add: map_of_eq_None_iff)
  show ?case
    using snoc.IH [OF d] none
    by (auto simp: p spread_snoc update_conv' map_add_def split: option.splits)
qed

lemma createCollectionSelectors_Inr:
  fixes metadata :: "'a EntityMetadata"
  assumes "list_all nameable (declaredFields metadata)"
  shows "\<exists>S. createCollectionSelectors metadata w = (Inr S, snd (builtinSelectors (filterFn metadata) w))
     \<and> (\<forall>name. map_of S name =
          (case lastField (declaredFields metadata) name of
             Some k \<Rightarrow> Some (extraSelector k)
           | None \<Rightarrow> map_of (fst (builtinSelectors (filterFn metadata) w)) name))"
proof -
  from extraSelectors_Inr [OF assms]
  obtain ex :: "(string \<times> 'a selector) list"
    where ex: "extraSelectors (declaredFields metadata) [] = Inr ex" by blast
  obtain b w1 where bs: "builtinSelectors (filterFn metadata) w = (b, w1)"
    by (cases "builtinSelectors (filterFn metadata) w")
  have d: "distinct (map fst ex)"
    using extraSelectors_distinct [OF ex] by simp
  have m: "map_of ex name =
      (case lastField (declaredFields metadata) name of
         Some k \<Rightarrow> Some (extraSelector k) | None \<Rightarrow> None)" for name
    using extraSelectors_map_of [OF ex, of name] by (simp split: option.splits)
  have c: "createCollectionSelectors metadata w = (Inr (spread b ex), w1)"
    by (simp add: createCollectionSelectors_def bs ex)
  have "map_of (spread b ex) name =
      (case lastField (declaredFields metadata) name of
         Some k \<Rightarrow> Some (extraSelector k) | None \<Rightarrow> map_of b name)" for name
    unfolding map_of_spread [OF d] m by (simp split: option.splits)
  with c bs show ?thesis by (simp split: option.splits)
qed

lemma createCollectionSelectors_Inl:
  fixes metadata :: "'a EntityMetadata"
  assumes "\<not> list_all nameable (declaredFields metadata)"
  shows "\<exists>e. fst (createCollectionSelectors metadata w) = Inl e"
  using extraSelectors_Inl [OF assms, of "[] :: (string \<times> 'a selector) list"]
  by (auto simp: createCollectionSelectors_def split: prod.splits)

lemma createCollectionSelectors_nameable:
  fixes metadata :: "'a EntityMetadata"
  assumes "createCollectionSelectors metadata w = (Inr S, w')"
  shows "list_all nameable (declaredFields metadata)"
  using createCollectionSelectors_Inl [of metadata w] assms by auto

lemma createCollectionSelectors_map_of:
  fixes metadata :: "'a EntityMetadata"
  assumes "createCollectionSelectors metadata w = (Inr S, w')"
  shows "map_of S name =
     (case lastField (declaredFields metadata) name of
        Some k \<Rightarrow> Some (extraSelector k)
      | None \<Rightarrow> map_of (fst (builtinSelectors (filterFn metadata) w)) name)"
  using createCollectionSelectors_Inr [OF createCollectionSelectors_nameable [OF assms], of w] assms
  by auto


lemma builtinSelectors_names:
  "map fst (fst (builtinSelectors fn w)) = builtinNames"
  by (simp add: builtinSelectors_def builtinNames_def Let_def split: prod.splits option.splits)

lemma builtinSelectors_map_of_Some:
  "name \<in> set builtinNames \<Longrightarrow> \<exists>sel. map_of (fst (builtinSelectors fn w)) name = Some sel"
proof -
  assume "name \<in> set builtinNames"
  then have "name \<in> fst ` set (fst (builtinSelectors fn w))"
    using builtinSelectors_names [of fn w] by (metis set_map)
  then have "map_of (fst (builtinSelectors fn w)) name \<noteq> None"
    by (simp add: map_of_eq_None_iff)
  then show ?thesis by blast
qed

lemma builtinSelectors_None:
  "builtinSelectors None w =
     ([(''selectCount'', memoizedState (next_cell w + 2) (next_cell w + 3) [selectKeys] countProjector),
       (''selectEntities'',
          memoizedState (next_cell w) (next_cell w + 1) [selectKeys, selectEntityMap] entitiesProjector),
       (''selectEntityMap'', selectEntityMap),
       (''selectFilter'', selectFilter),
       (''selectFilteredEntities'',
          memoizedState (next_cell w) (next_cell w + 1) [selectKeys, selectEntityMap] entitiesProjector),
       (''selectKeys'', selectKeys),
       (''selectLoaded'', selectLoaded),
       (''selectLoading'', selectLoading),
       (''selectOriginalValues'', selectOriginalValues)],
      w\<lparr>next_cell := next_cell w + 4\<rparr>)"
  by (simp add: builtinSelectors_def createSelector_def Let_def eval_nat_numeral)

lemma builtinSelectors_Some:
  "builtinSelectors (Some f) w =
     ([(''selectCount'', memoizedState (next_cell w + 2) (next_cell w + 3) [selectKeys] countProjector),
       (''selectEntities'',
          memoizedState (next_cell w) (next_cell w + 1) [selectKeys, selectEntityMap] entitiesProjector),
       (''selectEntityMap'', selectEntityMap),
       (''selectFilter'', selectFilter),
       (''selectFilteredEntities'',
          memoizedState (next_cell w + 4) (next_cell w + 5)
            [memoizedState (next_cell w) (next_cell w + 1) [selectKeys, selectEntityMap] entitiesProjector,
             selectFilter]
            (filterProjector f)),
       (''selectKeys'', selectKeys),
       (''selectLoaded'', selectLoaded),
       (''selectLoading'', selectLoading),
       (''selectOriginalValues'', selectOriginalValues)],
      w\<lparr>next_cell := next_cell w + 6\<rparr>)"
  by (simp add: builtinSelectors_def createSelector_def Let_def eval_nat_numeral)

subsection \<open>Filter pass-through\<close>

text \<open>
  C7. When the configuration has no filter function, \<open>selectFilteredEntities\<close> is the very
  selector \<open>selectEntities\<close>: the same memoized function on the same two cells. No further
  cells are allocated for it (the build takes four cells, two for \<open>selectEntities\<close> and two
  for \<open>selectCount\<close>), so there is no extra memoization layer, and on every collection and
  in every world both give the same result. In the returned object both names hold this
  selector, unless an additional field takes one of the names.
\<close>

theorem selectFilteredEntities_is_selectEntities:
  fixes metadata :: "'a EntityMetadata"
  assumes "filterFn metadata = None"
  shows "\<exists>sel. map_of (fst (builtinSelectors (filterFn metadata) w)) ''selectEntities'' = Some sel
     \<and> map_of (fst (builtinSelectors (filterFn metadata) w)) ''selectFilteredEntities'' = Some sel
     \<and> sel = memoizedState (next_cell w) (next_cell w + 1) [selectKeys, selectEntityMap] entitiesProjector
     \<and> next_cell (snd (builtinSelectors (filterFn metadata) w)) = next_cell w + 4
     \<and> (\<forall>S w'. createCollectionSelectors metadata w = (Inr S, w') \<longrightarrow>
           lastField (declaredFields metadata) ''selectEntities'' = None \<longrightarrow>
           lastField (declaredFields metadata) ''selectFilteredEntities'' = None \<longrightarrow>
           map_of S ''selectEntities'' = Some sel \<and> map_of S ''selectFilteredEntities'' = Some sel
           \<and> (\<forall>c u. invoke S ''selectFilteredEntities'' c u = invoke S ''selectEntities'' c u))"
proof -
  let ?sel = "memoizedState (next_cell w) (next_cell w + 1) [selectKeys, selectEntityMap] entitiesProjector
                :: 'a selector"
  let ?b = "fst (builtinSelectors (filterFn metadata) w)"
  have e: "map_of ?b ''selectEntities'' = Some ?sel"
    by (simp add: assms builtinSelectors_None)
  have f: "map_of ?b ''selectFilteredEntities'' = Some ?sel"
    by (simp add: assms builtinSelectors_None)
  have n: "next_cell (snd (builtinSelectors (filterFn metadata) w)) = next_cell w + 4"
    by (simp add: assms builtinSelectors_None)
  have r: "map_of S ''selectEntities'' = Some ?sel \<and> map_of S ''selectFilteredEntities'' = Some ?sel
      \<and> (\<forall>c u. invoke S ''selectFilteredEntities'' c u = invoke S ''selectEntities'' c u)"
    if c: "createCollectionSelectors metadata w = (Inr S, w')"
      and l1: "lastField (declaredFields metadata) ''selectEntities'' = None"
      and l2: "lastField (declaredFields metadata) ''selectFilteredEntities'' = None"
    for S w'
  proof -
    have "list_all nameable (declaredFields metadata)"
      using createCollectionSelectors_Inl [of metadata w] c by auto
    from createCollectionSelectors_Inr [OF this, of w] c
    have m: "map_of S name =
        (case lastField (declaredFields metadata) name of
           Some k \<Rightarrow> Some (extraSelector k) | None \<Rightarrow> map_of ?b name)" for name
      by auto
    have "map_of S ''selectEntities'' = Some ?sel"
      unfolding m l1 using e by simp
    moreover have "map_of S ''selectFilteredEntities'' = Some ?sel"
      unfolding m l2 using f by simp
    ultimately show ?thesis by (simp add: invoke_def)
  qed
  from e f n r show ?thesis by blast
qed

theorem selectFilteredEntities_is_selectEntities_witness:
  "filterFn example_metadata = None
   \<and> map_of (selectorsOf (createCollectionSelectors example_metadata example_world)) ''selectFilteredEntities''
       = map_of (selectorsOf (createCollectionSelectors example_metadata example_world)) ''selectEntities''
   \<and> map_of (selectorsOf (createCollectionSelectors example_metadata example_world)) ''selectEntities''
       = Some (memoizedState 0 1 [selectKeys, selectEntityMap] entitiesProjector)"
proof -
  have h: "filterFn example_metadata = None"
    by (simp add: example_metadata_def)
  have f: "declaredFields example_metadata = [''loadedAt'']"
    by (simp add: declaredFields_def declaredState_def Object_keys_def example_metadata_def)
  have ne: "list_all nameable (declaredFields example_metadata)"
    by (simp add: f)
  from createCollectionSelectors_Inr [OF ne, of example_world]
  obtain S w' where c: "createCollectionSelectors example_metadata example_world = (Inr S, w')"
    by blast
  have l1: "lastField (declaredFields example_metadata) ''selectEntities'' = None"
    by (simp add: f upper_ascii_def)
  have l2: "lastField (declaredFields example_metadata) ''selectFilteredEntities'' = None"
    by (simp add: f upper_ascii_def)
  from selectFilteredEntities_is_selectEntities [OF h, of example_world] c l1 l2
  have "map_of S ''selectEntities''
          = Some (memoizedState (next_cell example_world) (next_cell example_world + 1)
                    [selectKeys, selectEntityMap] entitiesProjector)
      \<and> map_of S ''selectFilteredEntities'' = map_of S ''selectEntities''"
    by auto
  moreover have "selectorsOf (createCollectionSelectors example_metadata example_world) = S"
    by (simp add: selectorsOf_def c)
  moreover have "next_cell example_world = 0"
    by (simp add: example_world_def)
  ultimately show ?thesis
    using h by simp
qed

subsection \<open>Shadowing of built-in selectors\<close>

text \<open>
  For every configuration for which the selector name of every declared field is formed,
  \<open>createCollectionSelectors\<close> returns an object. If the selector name of a declared field
  is the name of a built-in selector, the object holds under that name the accessor of a
  declared field (the last one declared with that selector name), not the built-in
  selector. Every built-in name that is the selector name of no declared field holds the
  built-in selector.
\<close>

lemma extra_selector_shadows_builtin:
  fixes metadata :: "'a EntityMetadata"
  assumes "list_all nameable (declaredFields metadata)"
  shows "\<exists>S. createCollectionSelectors metadata w = (Inr S, snd (builtinSelectors (filterFn metadata) w))
     \<and> (\<forall>name \<in> set builtinNames. \<forall>k \<in> set (declaredFields metadata).
           selectorName k = Inr name \<longrightarrow>
           (\<exists>k' \<in> set (declaredFields metadata). selectorName k' = Inr name
              \<and> lastField (declaredFields metadata) name = Some k'
              \<and> map_of S name = Some (extraSelector k')))
     \<and> (\<forall>name \<in> set builtinNames.
           (\<forall>k \<in> set (declaredFields metadata). selectorName k \<noteq> Inr name) \<longrightarrow>
           (\<exists>sel. map_of S name = Some sel
              \<and> map_of (fst (builtinSelectors (filterFn metadata) w)) name = Some sel))"
proof -
  let ?b = "fst (builtinSelectors (filterFn metadata) w)"
  from createCollectionSelectors_Inr [OF assms, of w]
  obtain S where c: "createCollectionSelectors metadata w = (Inr S, snd (builtinSelectors (filterFn metadata) w))"
    and m: "\<And>name. map_of S name =
        (case lastField (declaredFields metadata) name of
           Some k \<Rightarrow> Some (extraSelector k) | None \<Rightarrow> map_of ?b name)"
    by blast
  have shadow: "\<exists>k' \<in> set (declaredFields metadata). selectorName k' = Inr name
        \<and> lastField (declaredFields metadata) name = Some k'
        \<and> map_of S name = Some (extraSelector k')"
    if "k \<in> set (declaredFields metadata)" and "selectorName k = Inr name" for name k
  proof -
    from that have "lastField (declaredFields metadata) name \<noteq> None"
      by (auto simp: lastField_None)
    then obtain k' where l: "lastField (declaredFields metadata) name = Some k'"
      by blast
    from lastField_Some [OF l] m [of name] l show ?thesis by simp
  qed
  have keep: "\<exists>sel. map_of S name = Some sel \<and> map_of ?b name = Some sel"
    if "name \<in> set builtinNames"
      and "\<forall>k \<in> set (declaredFields metadata). selectorName k \<noteq> Inr name" for name
  proof -
    from that(2) have "lastField (declaredFields metadata) name = None"
      by (simp add: lastField_None)
    with m [of name] builtinSelectors_map_of_Some [OF that(1), of "filterFn metadata" w]
    show ?thesis by auto
  qed
  from c shadow keep show ?thesis by blast
qed

text \<open>
  An example of the shadowing: the declared field \<open>count\<close> takes the name \<open>selectCount\<close>,
  and \<open>selectKeys\<close> stays the built-in selector.
\<close>

lemma shadowing_example:
  "map_of (selectorsOf (createCollectionSelectors colliding_metadata example_world)) ''selectCount''
        = Some (extraSelector ''count'')
   \<and> map_of (selectorsOf (createCollectionSelectors colliding_metadata example_world)) ''selectKeys''
        = Some selectKeys"
proof -
  have f: "declaredFields colliding_metadata = [''count'']"
    by (simp add: declaredFields_def declaredState_def Object_keys_def colliding_metadata_def)
  have ne: "list_all nameable (declaredFields colliding_metadata)"
    by (simp add: f)
  have fn: "filterFn colliding_metadata = None"
    by (simp add: colliding_metadata_def)
  from createCollectionSelectors_Inr [OF ne, of example_world]
  obtain S where c: "createCollectionSelectors colliding_metadata example_world
        = (Inr S, snd (builtinSelectors (filterFn colliding_metadata) example_world))"
    by blast
  have "map_of S ''selectCount'' = Some (extraSelector ''count'')"
    unfolding createCollectionSelectors_map_of [OF c] by (simp add: f upper_ascii_def)
  moreover have "map_of S ''selectKeys'' = Some selectKeys"
    unfolding createCollectionSelectors_map_of [OF c]
    by (simp add: f fn upper_ascii_def builtinSelectors_None)
  moreover have "selectorsOf (createCollectionSelectors colliding_metadata example_world) = S"
    by (simp add: selectorsOf_def c)
  ultimately show ?thesis by simp
qed

text \<open>
  C10. An additional field whose selector name is a built-in name takes that name, and
  without a collision all nine built-in selectors are in the returned object, whenever an
  object is returned (see above). But the
  build does not return for every configuration: for the configuration whose additional
  collection state is \<^verbatim>\<open>{'': 0}\<close>, a single field with the empty name, no selector name
  collides with a built-in name, and \<open>createCollectionSelectors\<close> throws a TypeError,
  since \<^verbatim>\<open>k[0]\<close> is \<^verbatim>\<open>undefined\<close> for the empty string. No object with the nine built-in
  selectors is returned.
\<close>

theorem empty_field_name_raises:
  "declaredFields blank_metadata = [[]]
   \<and> lastField (declaredFields blank_metadata) ''selectCount'' = None
   \<and> selectorName [] = Inl TypeError
   \<and> fst (createCollectionSelectors blank_metadata example_world) = Inl TypeError
   \<and> selectorsOf (createCollectionSelectors blank_metadata example_world) = []"
proof -
  have f: "declaredFields blank_metadata = [[]]"
    by (simp add: declaredFields_def declaredState_def Object_keys_def blank_metadata_def)
  have c: "fst (createCollectionSelectors blank_metadata example_world) = Inl TypeError"
    by (simp add: createCollectionSelectors_def f split: prod.splits)
  from f c show ?thesis
    by (simp add: selectorsOf_def)
qed

subsection \<open>Selectors of the additional collection state\<close>

text \<open>
  Let the selector name of every declared field be formed, and let \<open>k\<close> be a declared
  field. The returned object has a selector under the name \<open>select\<close> followed by \<open>k\<close>
  with its first letter in upper case. On every collection it returns the value of the
  field \<open>k'\<close>, the last declared field with that selector name; \<open>k'\<close> is \<open>k\<close> itself when
  no other declared field has the same selector name.
\<close>

lemma extra_field_selector:
  fixes metadata :: "'a EntityMetadata"
  assumes "list_all nameable (declaredFields metadata)" and "k \<in> set (declaredFields metadata)"
  shows "\<exists>S k'. fst (createCollectionSelectors metadata w) = Inr S
     \<and> selectorName k = Inr (''select'' @ upper_ascii (hd k) # tl k)
     \<and> k' \<in> set (declaredFields metadata) \<and> selectorName k' = selectorName k
     \<and> lastField (declaredFields metadata) (''select'' @ upper_ascii (hd k) # tl k) = Some k'
     \<and> map_of S (''select'' @ upper_ascii (hd k) # tl k) = Some (extraSelector k')
     \<and> (\<forall>c u. invoke S (''select'' @ upper_ascii (hd k) # tl k) c u = (property c k', u))
     \<and> ((\<forall>j \<in> set (declaredFields metadata). selectorName j = selectorName k \<longrightarrow> j = k) \<longrightarrow> k' = k)"
proof -
  let ?name = "''select'' @ upper_ascii (hd k) # tl k"
  let ?fields = "declaredFields metadata"
  from assms have "nameable k" by (simp add: list_all_iff)
  then have n: "selectorName k = Inr ?name" by (rule selectorName_nameable)
  from createCollectionSelectors_Inr [OF assms(1), of w]
  obtain S where c: "fst (createCollectionSelectors metadata w) = Inr S"
    and m: "\<And>name. map_of S name =
        (case lastField ?fields name of
           Some k \<Rightarrow> Some (extraSelector k)
         | None \<Rightarrow> map_of (fst (builtinSelectors (filterFn metadata) w)) name)"
    by auto
  from assms(2) n have "lastField ?fields ?name \<noteq> None"
    by (auto simp: lastField_None)
  then obtain k' where l: "lastField ?fields ?name = Some k'" by blast
  from lastField_Some [OF l] have k': "k' \<in> set ?fields" and n': "selectorName k' = Inr ?name"
    by simp_all
  from m [of ?name] l have s: "map_of S ?name = Some (extraSelector k')" by simp
  then have i: "invoke S ?name c u = (property c k', u)" for c u
    by (simp add: invoke_def extraSelector_def)
  have u: "k' = k" if "\<forall>j \<in> set ?fields. selectorName j = selectorName k \<longrightarrow> j = k"
    using that k' n' n by simp
  from c n k' n' l s i u show ?thesis
    by (intro exI [of _ S] exI [of _ k']) simp
qed

text \<open>
  C8. The comment in the source promises a selector for each property of the additional
  collection state. For the two declared fields \<open>foo\<close> and \<open>Foo\<close>, which differ in the
  case of the first letter only, both selector names are \<open>selectFoo\<close>: the returned object
  has the nine built-in selectors and the one further property \<open>selectFoo\<close>, the later
  assignment has replaced the earlier one, and on a collection with \<open>foo = x\<close> and
  \<open>Foo = y\<close> the selector returns \<open>y\<close>. No selector of the object returns the value of the
  field \<open>foo\<close>.
\<close>

theorem case_fields_share_selector:
  "declaredFields case_metadata = [''foo'', ''Foo'']
   \<and> selectorName ''foo'' = Inr ''selectFoo''
   \<and> selectorName ''Foo'' = Inr ''selectFoo''
   \<and> map fst (selectorsOf (createCollectionSelectors case_metadata example_world))
        = builtinNames @ [''selectFoo'']
   \<and> property example_collection ''foo'' = Inr (VStr ''x'')
   \<and> invoke (selectorsOf (createCollectionSelectors case_metadata example_world)) ''selectFoo''
        example_collection example_world = (Inr (VStr ''y''), example_world)"
proof -
  have f: "declaredFields case_metadata = [''foo'', ''Foo'']"
    by (simp add: declaredFields_def declaredState_def Object_keys_def case_metadata_def)
  have fn: "filterFn case_metadata = None"
    by (simp add: case_metadata_def)
  have ex: "extraSelectors (declaredFields case_metadata) ([] :: (string \<times> hero selector) list)
      = Inr [(''selectFoo'', extraSelector ''Foo'')]"
    by (simp add: f upper_ascii_def)
  have S: "selectorsOf (createCollectionSelectors case_metadata example_world)
      = spread (fst (builtinSelectors None example_world)) [(''selectFoo'', extraSelector ''Foo'')]"
    by (simp add: selectorsOf_def createCollectionSelectors_def ex fn split: prod.splits)
  have names: "map fst (selectorsOf (createCollectionSelectors case_metadata example_world))
      = builtinNames @ [''selectFoo'']"
    unfolding S by (simp add: builtinSelectors_None spread_def builtinNames_def)
  have m: "map_of (selectorsOf (createCollectionSelectors case_metadata example_world)) ''selectFoo''
      = Some (extraSelector ''Foo'')"
    unfolding S by (simp add: builtinSelectors_None spread_def)
  have "extraSelector ''Foo'' example_collection example_world
      = (Inr (VStr ''y''), example_world)"
    by (simp add: extraSelector_def example_collection_def)
  moreover have "property example_collection ''foo'' = Inr (VStr ''x'')"
    by (simp add: example_collection_def)
  ultimately show ?thesis
    using f names m by (simp add: invoke_def upper_ascii_def)
qed

subsection \<open>The root selectors: build\<close>

lemma spread_distinct:
  "distinct (map fst base) \<Longrightarrow> distinct (map fst (spread base extra))"
proof (induction extra rule: rev_induct)
  case Nil
  then show ?case by (simp add: spread_def)
next
  case (snoc p xs)
  obtain k v where "p = (k, v)" by (cases p)
  with snoc show ?case by (simp add: spread_snoc distinct_update)
qed

lemma createCollectionSelectors_distinct:
  assumes "createCollectionSelectors metadata w = (Inr S, w')"
  shows "distinct (map fst S)"
proof -
  have "distinct (map fst (fst (builtinSelectors (filterFn metadata) w)))"
    by (simp add: builtinSelectors_names builtinNames_def)
  with assms show ?thesis
    by (auto simp: createCollectionSelectors_def spread_distinct split: prod.splits sum.splits)
qed

lemma createCollectionSelectors_values:
  fixes metadata :: "'a EntityMetadata"
  assumes "createCollectionSelectors metadata w = (Inr S, w')" and "map_of S k = Some m"
  shows "m \<in> snd ` set (fst (builtinSelectors (filterFn metadata) w)) \<or> (\<exists>j. m = extraSelector j)"
proof -
  have ne: "list_all nameable (declaredFields metadata)"
    using createCollectionSelectors_Inl [of metadata w] assms(1) by auto
  from createCollectionSelectors_Inr [OF ne, of w] assms
  have "(case lastField (declaredFields metadata) k of
           Some j \<Rightarrow> Some (extraSelector j)
         | None \<Rightarrow> map_of (fst (builtinSelectors (filterFn metadata) w)) k) = Some m"
    by auto
  then show ?thesis
  proof (cases "lastField (declaredFields metadata) k")
    case None
    assume "(case lastField (declaredFields metadata) k of
           Some j \<Rightarrow> Some (extraSelector j)
         | None \<Rightarrow> map_of (fst (builtinSelectors (filterFn metadata) w)) k) = Some m"
    with None have "map_of (fst (builtinSelectors (filterFn metadata) w)) k = Some m" by simp
    then have "(k, m) \<in> set (fst (builtinSelectors (filterFn metadata) w))" by (rule map_of_SomeD)
    then show ?thesis by force
  next
    case (Some j)
    assume "(case lastField (declaredFields metadata) k of
           Some j \<Rightarrow> Some (extraSelector j)
         | None \<Rightarrow> map_of (fst (builtinSelectors (filterFn metadata) w)) k) = Some m"
    with Some show ?thesis by auto
  qed
qed

lemma entitySelectors_world:
  "entitySelectors sc S acc w = (es, w') \<Longrightarrow> w' = w\<lparr>next_cell := next_cell w + 2 * length S\<rparr>"
proof (induction S arbitrary: acc w)
  case Nil
  then show ?case by simp
next
  case (Cons p S)
  obtain k m where p: "p = (k, m)" by (cases p)
  from Cons.prems p
  have "entitySelectors sc S
          (AList.update k (memoizedState (next_cell w) (next_cell w + 1) [sc] (memberProjector m)) acc)
          (w\<lparr>next_cell := next_cell w + 2\<rparr>) = (es, w')"
    by (simp add: createSelector_def Let_def)
  from Cons.IH [OF this] show ?case by simp
qed

lemma entitySelectors_map_of:
  "entitySelectors sc S acc w = (es, w') \<Longrightarrow> distinct (map fst S) \<Longrightarrow>
   map_of es name =
     (case map_of S name of
        None \<Rightarrow> map_of acc name
      | Some m \<Rightarrow>
          Some (memoizedState (rootCell S (next_cell w) name) (rootCell S (next_cell w) name + 1)
                  [sc] (memberProjector m)))"
proof (induction S arbitrary: acc w)
  case Nil
  then show ?case by simp
next
  case (Cons p S)
  obtain k m where p: "p = (k, m)" by (cases p)
  let ?sel = "memoizedState (next_cell w) (next_cell w + 1) [sc] (memberProjector m)"
  from Cons.prems(1) p
  have e: "entitySelectors sc S (AList.update k ?sel acc) (w\<lparr>next_cell := next_cell w + 2\<rparr>) = (es, w')"
    by (simp add: createSelector_def Let_def)
  from Cons.prems(2) p have d: "distinct (map fst S)" and k: "k \<notin> fst ` set S" by auto
  from k have none: "map_of S k = None" by (simp add: map_of_eq_None_iff)
  from Cons.IH [OF e d] none show ?case
    by (auto simp: p update_conv' split: option.splits)
qed

lemma entitySelectors_distinct:
  "entitySelectors sc S acc w = (es, w') \<Longrightarrow> distinct (map fst acc) \<Longrightarrow> distinct (map fst es)"
proof (induction S arbitrary: acc w)
  case Nil
  then show ?case by simp
next
  case (Cons p S)
  obtain k m where p: "p = (k, m)" by (cases p)
  let ?sel = "memoizedState (next_cell w) (next_cell w + 1) [sc] (memberProjector m)"
  from Cons.prems(1) p
  have e: "entitySelectors sc S (AList.update k ?sel acc) (w\<lparr>next_cell := next_cell w + 2\<rparr>) = (es, w')"
    by (simp add: createSelector_def Let_def)
  from Cons.prems(2) have "distinct (map fst (AList.update k ?sel acc))"
    by (simp add: distinct_update)
  from Cons.IH [OF e this] show ?case .
qed

lemma create_Inl:
  fixes metadata :: "'a EntityMetadata"
  assumes "\<not> list_all nameable (declaredFields metadata)"
  shows "\<exists>e. fst (create this metadata w) = Inl e"
proof -
  obtain sc w1 where a: "createCollectionSelector this (entityName metadata) w = (sc, w1)"
    by (cases "createCollectionSelector this (entityName metadata) w")
  from createCollectionSelectors_Inl [OF assms, of w1]
  obtain e w2 where "createCollectionSelectors metadata w1 = (Inl e, w2)"
    by (cases "createCollectionSelectors metadata w1") auto
  with a show ?thesis by (simp add: create_def)
qed

lemma create_nameable:
  fixes metadata :: "'a EntityMetadata"
  assumes "create this metadata w = (Inr rs, w')"
  shows "list_all nameable (declaredFields metadata)"
  using create_Inl [of metadata this w] assms by auto

lemma create_Inr:
  fixes metadata :: "'a EntityMetadata"
  assumes "list_all nameable (declaredFields metadata)"
  shows "\<exists>sc w1 S w2 rs.
      createCollectionSelector this (entityName metadata) w = (sc, w1)
    \<and> createCollectionSelectors metadata w1 = (Inr S, w2)
    \<and> create this metadata w = (Inr rs, w2\<lparr>next_cell := next_cell w2 + 2 * length S\<rparr>)
    \<and> rootEntityName rs = entityName metadata
    \<and> (\<forall>name. map_of (rootSelectors rs) name =
          (case map_of S name of
             Some m \<Rightarrow>
               Some (memoizedState (rootCell S (next_cell w2) name) (rootCell S (next_cell w2) name + 1)
                       [sc] (memberProjector m))
           | None \<Rightarrow> if name = ''selectCollection'' then Some sc else None))"
proof -
  obtain sc w1 where a: "createCollectionSelector this (entityName metadata) w = (sc, w1)"
    by (cases "createCollectionSelector this (entityName metadata) w")
  from createCollectionSelectors_Inr [OF assms, of w1]
  obtain S w2 where b: "createCollectionSelectors metadata w1 = (Inr S, w2)"
    by blast
  obtain es w3 where c: "entitySelectors sc S [] w2 = (es, w3)"
    by (cases "entitySelectors sc S [] w2")
  let ?rs = "\<lparr>rootEntityName = entityName metadata,
              rootSelectors = spread [(''selectCollection'', sc)] es\<rparr>"
  have w3: "w3 = w2\<lparr>next_cell := next_cell w2 + 2 * length S\<rparr>"
    by (rule entitySelectors_world [OF c])
  have dS: "distinct (map fst S)"
    by (rule createCollectionSelectors_distinct [OF b])
  have des: "distinct (map fst es)"
    using entitySelectors_distinct [OF c] by simp
  have cr: "create this metadata w = (Inr ?rs, w2\<lparr>next_cell := next_cell w2 + 2 * length S\<rparr>)"
    using a b c w3 by (simp add: create_def)
  have "map_of (rootSelectors ?rs) name =
          (case map_of S name of
             Some m \<Rightarrow>
               Some (memoizedState (rootCell S (next_cell w2) name) (rootCell S (next_cell w2) name + 1)
                       [sc] (memberProjector m))
           | None \<Rightarrow> if name = ''selectCollection'' then Some sc else None)" for name
    using entitySelectors_map_of [OF c dS, of name]
    by (simp add: map_of_spread [OF des] split: option.splits)
  with a b cr show ?thesis
    by (intro exI [of _ sc] exI [of _ w1] exI [of _ S] exI [of _ w2] exI [of _ ?rs]) simp
qed

subsection \<open>Memoization\<close>

lemma is_memoized_recalls: "is_memoized sel \<Longrightarrow> recalls sel"
  unfolding recalls_def by (blast intro: is_memoized_repeat)

lemma factory_world_eq: "factory_world = example_world\<lparr>next_cell := 2\<rparr>"
  by (simp add: factory_world_def new_EntitySelectorsFactory_def createFeatureSelector_def
      createSelector_def Let_def example_world_def)

lemma example_factory_eq:
  "example_factory =
     \<lparr>selectEntityCache =
        memoizedState 0 1 [\<lambda>state w. (property state ''entityCache'', w)] (\<lambda>args w. (Inr (arg args 0), w)),
      entityCollectionCreator = defaultCreator []\<rparr>"
  by (simp add: example_factory_def new_EntitySelectorsFactory_def createFeatureSelector_def
      createSelector_def Let_def example_world_def)

lemma example_accessor_eq:
  "example_accessor =
     memoizedState 2 3 [selectEntityCache example_factory] (getCollection (defaultCreator []) (Some ''Hero''))"
  by (simp add: example_accessor_def createCollectionSelector_def createSelector_def Let_def
      factory_world_eq example_factory_eq example_world_def eval_nat_numeral)

lemma accessor_world_eq: "accessor_world = example_world\<lparr>next_cell := 4\<rparr>"
  by (simp add: accessor_world_def createCollectionSelector_def createSelector_def Let_def
      factory_world_eq example_world_def)

lemma example_accessor_villain:
  "example_accessor villain_state accessor_world =
     (Inr (defaultCollection [] 100),
      accessor_world\<lparr>cells := ((cells accessor_world)
          (0 \<mapsto> ([VObject 4 [(''Villain'', VObject 5 [])]], VObject 4 [(''Villain'', VObject 5 [])]),
           1 \<mapsto> ([villain_state], VObject 4 [(''Villain'', VObject 5 [])]),
           2 \<mapsto> ([VObject 4 [(''Villain'', VObject 5 [])]], defaultCollection [] 100),
           3 \<mapsto> ([villain_state], defaultCollection [] 100))),
        next_addr := 104, invocations := 4, creator_calls := 1\<rparr>)"
  by (simp add: example_accessor_eq accessor_world_eq example_factory_eq memoizedState_def
      memoize_def example_world_def villain_state_def arg_def getCollection_def defaultCreator_def
      fun_upd_twist inherited_def Object_prototype_def)

text \<open>
  C3. Every selector made by \<open>createSelector\<close> recalls its result: the selector of the
  entity cache, the collection accessor, the composed member selectors \<open>selectEntities\<close>,
  \<open>selectCount\<close> and \<open>selectFilteredEntities\<close>, and every selector of the set that
  \<open>create\<close> returns. Called again on the same state right after a call that returned, it
  returns the same reference and leaves the world unchanged; in particular the accessor
  does not call the collection creator again.
\<close>

theorem memoized_selectors_recall:
  fixes this :: "'a EntitySelectorsFactory" and metadata :: "'a EntityMetadata"
  shows "recalls (selectEntityCache (fst (new_EntitySelectorsFactory cacheName creator w)))
     \<and> recalls (fst (createCollectionSelector this name w))
     \<and> (\<forall>sel. map_of (fst (builtinSelectors fn w)) ''selectEntities'' = Some sel \<longrightarrow> recalls sel)
     \<and> (\<forall>sel. map_of (fst (builtinSelectors fn w)) ''selectCount'' = Some sel \<longrightarrow> recalls sel)
     \<and> (\<forall>sel. map_of (fst (builtinSelectors fn w)) ''selectFilteredEntities'' = Some sel \<longrightarrow> recalls sel)
     \<and> (\<forall>rs w' k sel. create this metadata w = (Inr rs, w') \<longrightarrow>
           map_of (rootSelectors rs) k = Some sel \<longrightarrow> recalls sel)"
proof -
  have a: "recalls (selectEntityCache (fst (new_EntitySelectorsFactory cacheName creator w)))"
    by (rule is_memoized_recalls)
      (simp add: new_EntitySelectorsFactory_def createFeatureSelector_def createSelector_def Let_def)
  have b: "recalls (fst (createCollectionSelector this name w))"
    by (rule is_memoized_recalls)
      (simp add: createCollectionSelector_def createSelector_def Let_def)
  have c: "recalls sel" if "map_of (fst (builtinSelectors fn w)) ''selectEntities'' = Some sel" for sel
    using that by (cases fn) (auto simp: builtinSelectors_None builtinSelectors_Some is_memoized_recalls)
  have d: "recalls sel" if "map_of (fst (builtinSelectors fn w)) ''selectCount'' = Some sel" for sel
    using that by (cases fn) (auto simp: builtinSelectors_None builtinSelectors_Some is_memoized_recalls)
  have e: "recalls sel" if "map_of (fst (builtinSelectors fn w)) ''selectFilteredEntities'' = Some sel" for sel
    using that by (cases fn) (auto simp: builtinSelectors_None builtinSelectors_Some is_memoized_recalls)
  have f: "recalls sel"
    if cr: "create this metadata w = (Inr rs, w')" and m: "map_of (rootSelectors rs) k = Some sel"
    for rs w' k sel
  proof -
    have ne: "list_all nameable (declaredFields metadata)"
      using create_Inl [of metadata this w] cr by auto
    from create_Inr [OF ne, of this w] cr
    obtain sc w1 and S :: "(string \<times> 'a selector) list" and w2 :: "'a world"
      where sc: "createCollectionSelector this (entityName metadata) w = (sc, w1)"
      and mm: "\<And>name. map_of (rootSelectors rs) name =
          (case map_of S name of
             Some m \<Rightarrow>
               Some (memoizedState (rootCell S (next_cell w2) name) (rootCell S (next_cell w2) name + 1)
                       [sc] (memberProjector m))
           | None \<Rightarrow> if name = ''selectCollection'' then Some sc else None)"
      by auto
    from sc have "is_memoized sc"
      by (auto simp: createCollectionSelector_def createSelector_def Let_def)
    with m mm [of k] have "is_memoized sel"
      by (auto split: option.splits if_splits)
    then show ?thesis by (rule is_memoized_recalls)
  qed
  from a b c d e f show ?thesis by blast
qed

theorem memoized_selectors_recall_witness:
  "fst (example_accessor villain_state accessor_world) = Inr (defaultCollection [] 100)
   \<and> creator_calls accessor_world = 0
   \<and> creator_calls (snd (example_accessor villain_state accessor_world)) = 1
   \<and> invocations (snd (example_accessor villain_state accessor_world)) = 4
   \<and> example_accessor villain_state (snd (example_accessor villain_state accessor_world))
        = (Inr (defaultCollection [] 100), snd (example_accessor villain_state accessor_world))"
proof -
  have "recalls (fst (createCollectionSelector example_factory (Some ''Hero'') factory_world))"
    by (rule memoized_selectors_recall [THEN conjunct2, THEN conjunct1])
  then have r: "recalls example_accessor"
    by (simp only: example_accessor_def)
  note again = r [unfolded recalls_def, rule_format, OF example_accessor_villain]
  have c: "creator_calls accessor_world = 0"
    by (simp add: accessor_world_eq example_world_def)
  show ?thesis
    unfolding example_accessor_villain fst_conv snd_conv using again c by simp
qed

subsection \<open>Soundness of memoized selectors\<close>

lemma unchanged_same_length:
  "\<not> changed args prev \<Longrightarrow> length prev = length args \<Longrightarrow> args = prev"
proof (induction args prev rule: changed.induct)
  case (1 prev)
  then show ?case by simp
next
  case (2 a args)
  then show ?case by simp
next
  case (3 a args b prev)
  then show ?case by simp
qed

lemma coherent_invocations [simp]:
  "coherent spec (w\<lparr>invocations := i\<rparr>) = coherent spec w"
  by (simp add: coherent_def)

lemma coherent_next_addr [simp]:
  "coherent spec (w\<lparr>next_addr := a\<rparr>) = coherent spec w"
  by (simp add: coherent_def)

lemma coherent_creator_calls [simp]:
  "coherent spec (w\<lparr>creator_calls := a\<rparr>) = coherent spec w"
  by (simp add: coherent_def)

lemma coherent_next_cell [simp]:
  "coherent spec (w\<lparr>next_cell := a\<rparr>) = coherent spec w"
  by (simp add: coherent_def)

lemma coherent_store:
  "coherent spec w \<Longrightarrow> spec n args v \<Longrightarrow> coherent spec (w\<lparr>cells := (cells w)(n \<mapsto> (args, v))\<rparr>)"
  by (simp add: coherent_def)

lemma soundI:
  "(\<And>w r w'. coherent spec w \<Longrightarrow> f w = (r, w') \<Longrightarrow> coherent spec w' \<and> Q r) \<Longrightarrow> sound spec f Q"
  unfolding sound_def by blast

lemma soundD:
  "sound spec f Q \<Longrightarrow> coherent spec w \<Longrightarrow> f w = (r, w') \<Longrightarrow> coherent spec w' \<and> Q r"
  unfolding sound_def by blast

lemma sound_pure: "Q r \<Longrightarrow> sound spec (\<lambda>w. (r, w)) Q"
  by (rule soundI) simp

lemma sound_weaken: "sound spec f Q \<Longrightarrow> (\<And>r. Q r \<Longrightarrow> Q' r) \<Longrightarrow> sound spec f Q'"
  unfolding sound_def by blast

lemma memoize_sound:
  assumes t: "sound spec (t args) Q"
    and q: "\<And>v. Q (Inr v) \<longleftrightarrow> spec n args v"
    and len: "\<And>prev r. spec n prev r \<Longrightarrow> length prev = length args"
  shows "sound spec (memoize n t args) Q"
proof (rule soundI)
  fix w r w'
  assume coh: "coherent spec w" and run: "memoize n t args w = (r, w')"
  have compute: "coherent spec w' \<and> Q r"
    if c: "(case t args (w\<lparr>invocations := invocations w + 1\<rparr>) of
              (Inl e, w1) \<Rightarrow> (Inl e, w1)
            | (Inr v, w1) \<Rightarrow> (Inr v, w1\<lparr>cells := (cells w1)(n \<mapsto> (args, v))\<rparr>)) = (r, w')"
  proof -
    obtain r1 w1 where r1: "t args (w\<lparr>invocations := invocations w + 1\<rparr>) = (r1, w1)"
      by (cases "t args (w\<lparr>invocations := invocations w + 1\<rparr>)")
    from soundD [OF t _ r1] coh have c1: "coherent spec w1" and q1: "Q r1" by simp_all
    show ?thesis
    proof (cases r1)
      case (Inl e)
      with c r1 c1 q1 show ?thesis by simp
    next
      case (Inr v)
      with q1 q have "spec n args v" by simp
      from coherent_store [OF c1 this] c r1 Inr q1 show ?thesis by auto
    qed
  qed
  show "coherent spec w' \<and> Q r"
  proof (cases "cells w n")
    case None
    with run compute show ?thesis by (simp add: memoize_def Let_def)
  next
    case (Some p)
    obtain prev v where p: "p = (prev, v)" by (cases p)
    show ?thesis
    proof (cases "changed args prev")
      case True
      with run Some p compute show ?thesis by (simp add: memoize_def Let_def)
    next
      case False
      from coh Some p have s: "spec n prev v" by (simp add: coherent_def)
      from unchanged_same_length [OF False len [OF s]] have "args = prev" .
      with s q have "Q (Inr v)" by simp
      with run Some p False coh show ?thesis by (auto simp: memoize_def Let_def)
    qed
  qed
qed

lemma arg_0 [simp]: "arg (a # args) 0 = a"
  by (simp add: arg_def)

lemma arg_1 [simp]: "arg (a # b # args) 1 = b"
  by (simp add: arg_def)

lemma memoizedState1_sound:
  assumes f1: "sound spec (f1 s) Q1"
    and pr: "\<And>a. Q1 (Inr a) \<Longrightarrow> sound spec (proj [a]) (P a)"
    and mp: "\<And>a v. Q1 (Inr a) \<Longrightarrow> P a (Inr v) \<longleftrightarrow> spec mp [a] v"
    and mplen: "\<And>prev r. spec mp prev r \<Longrightarrow> length prev = 1"
    and ms: "\<And>v. Q (Inr v) \<longleftrightarrow> spec ms [s] v"
    and mslen: "\<And>prev r. spec ms prev r \<Longrightarrow> length prev = 1"
    and val: "\<And>a r. Q1 (Inr a) \<Longrightarrow> P a r \<Longrightarrow> Q r"
    and err: "\<And>e. Q1 (Inl e) \<Longrightarrow> Q (Inl e)"
  shows "sound spec (memoizedState mp ms [f1] proj s) Q"
  unfolding memoizedState_def
proof (rule memoize_sound)
  show "sound spec
     (\<lambda>w. case map_selectors [f1] (arg [s] 0) w of
        (Inl e, w1) \<Rightarrow> (Inl e, w1)
      | (Inr args, w1) \<Rightarrow> memoize mp proj args w1) Q"
  proof (rule soundI)
    fix w r w'
    assume coh: "coherent spec w"
      and run: "(case map_selectors [f1] (arg [s] 0) w of
                   (Inl e, w1) \<Rightarrow> (Inl e, w1)
                 | (Inr args, w1) \<Rightarrow> memoize mp proj args w1) = (r, w')"
    obtain r1 w1 where r1: "f1 s w = (r1, w1)" by (cases "f1 s w")
    from soundD [OF f1 coh r1] have c1: "coherent spec w1" and q1: "Q1 r1" by simp_all
    show "coherent spec w' \<and> Q r"
    proof (cases r1)
      case (Inl e)
      with run r1 c1 q1 err show ?thesis by auto
    next
      case (Inr a)
      with q1 have qa: "Q1 (Inr a)" by simp
      from run r1 Inr have m: "memoize mp proj [a] w1 = (r, w')" by simp
      have "sound spec (memoize mp proj [a]) (P a)"
      proof (rule memoize_sound [where Q = "P a"])
        show "sound spec (proj [a]) (P a)" by (rule pr [OF qa])
        show "P a (Inr v) \<longleftrightarrow> spec mp [a] v" for v by (rule mp [OF qa])
        show "length prev = length [a]" if "spec mp prev r" for prev r
          using mplen [OF that] by simp
      qed
      from soundD [OF this c1 m] val [OF qa] show ?thesis by blast
    qed
  qed
  show "Q (Inr v) \<longleftrightarrow> spec ms [s] v" for v by (rule ms)
  show "length prev = length [s]" if "spec ms prev r" for prev r
    using mslen [OF that] by simp
qed

lemma memoizedState2_sound:
  assumes f1: "sound spec (f1 s) Q1"
    and f2: "sound spec (f2 s) Q2"
    and pr: "\<And>a b. Q1 (Inr a) \<Longrightarrow> Q2 (Inr b) \<Longrightarrow> sound spec (proj [a, b]) (P a b)"
    and mp: "\<And>a b v. Q1 (Inr a) \<Longrightarrow> Q2 (Inr b) \<Longrightarrow> P a b (Inr v) \<longleftrightarrow> spec mp [a, b] v"
    and mplen: "\<And>prev r. spec mp prev r \<Longrightarrow> length prev = 2"
    and ms: "\<And>v. Q (Inr v) \<longleftrightarrow> spec ms [s] v"
    and mslen: "\<And>prev r. spec ms prev r \<Longrightarrow> length prev = 1"
    and val: "\<And>a b r. Q1 (Inr a) \<Longrightarrow> Q2 (Inr b) \<Longrightarrow> P a b r \<Longrightarrow> Q r"
    and err1: "\<And>e. Q1 (Inl e) \<Longrightarrow> Q (Inl e)"
    and err2: "\<And>a e. Q1 (Inr a) \<Longrightarrow> Q2 (Inl e) \<Longrightarrow> Q (Inl e)"
  shows "sound spec (memoizedState mp ms [f1, f2] proj s) Q"
  unfolding memoizedState_def
proof (rule memoize_sound)
  show "sound spec
     (\<lambda>w. case map_selectors [f1, f2] (arg [s] 0) w of
        (Inl e, w1) \<Rightarrow> (Inl e, w1)
      | (Inr args, w1) \<Rightarrow> memoize mp proj args w1) Q"
  proof (rule soundI)
    fix w r w'
    assume coh: "coherent spec w"
      and run: "(case map_selectors [f1, f2] (arg [s] 0) w of
                   (Inl e, w1) \<Rightarrow> (Inl e, w1)
                 | (Inr args, w1) \<Rightarrow> memoize mp proj args w1) = (r, w')"
    obtain r1 w1 where r1: "f1 s w = (r1, w1)" by (cases "f1 s w")
    from soundD [OF f1 coh r1] have c1: "coherent spec w1" and q1: "Q1 r1" by simp_all
    show "coherent spec w' \<and> Q r"
    proof (cases r1)
      case (Inl e)
      with run r1 c1 q1 err1 show ?thesis by auto
    next
      case (Inr a)
      with q1 have qa: "Q1 (Inr a)" by simp
      obtain r2 w2 where r2: "f2 s w1 = (r2, w2)" by (cases "f2 s w1")
      from soundD [OF f2 c1 r2] have c2: "coherent spec w2" and q2: "Q2 r2" by simp_all
      show ?thesis
      proof (cases r2)
        case (Inl e)
        with run r1 r2 \<open>r1 = Inr a\<close> c2 q2 err2 [OF qa] show ?thesis by auto
      next
        case (Inr b)
        with q2 have qb: "Q2 (Inr b)" by simp
        from run r1 r2 \<open>r1 = Inr a\<close> Inr have m: "memoize mp proj [a, b] w2 = (r, w')" by simp
        have "sound spec (memoize mp proj [a, b]) (P a b)"
        proof (rule memoize_sound [where Q = "P a b"])
          show "sound spec (proj [a, b]) (P a b)" by (rule pr [OF qa qb])
          show "P a b (Inr v) \<longleftrightarrow> spec mp [a, b] v" for v by (rule mp [OF qa qb])
          show "length prev = length [a, b]" if "spec mp prev r" for prev r
            using mplen [OF that] by simp
        qed
        from soundD [OF this c2 m] val [OF qa qb] show ?thesis by blast
      qed
    qed
  qed
  show "Q (Inr v) \<longleftrightarrow> spec ms [s] v" for v by (rule ms)
  show "length prev = length [s]" if "spec ms prev r" for prev r
    using mslen [OF that] by simp
qed

subsection \<open>The member selectors\<close>

lemma arg_Suc_0 [simp]: "arg (a # b # args) (Suc 0) = b"
  by (simp add: arg_def)

lemma answers_Inr [simp]: "answers G (Inr v) = G v"
  by (simp add: answers_def)

lemma answers_Inl [simp]: "answers G (Inl e) = (\<not> (\<exists>v. G v))"
  by (simp add: answers_def)

lemma answers_total: "answers G r \<Longrightarrow> G v0 \<Longrightarrow> \<exists>v. r = Inr v \<and> G v"
  by (cases r) auto

lemma entitiesProjector_sound:
  "sound spec (entitiesProjector [ks, es]) (answers (entitiesOf ks es))"
proof (rule soundI)
  fix w r w'
  assume coh: "coherent spec w" and run: "entitiesProjector [ks, es] w = (r, w')"
  show "coherent spec w' \<and> answers (entitiesOf ks es) r"
  proof (cases "\<exists>t keys. ks = VArray t keys")
    case True
    then obtain t keys where ks: "ks = VArray t keys" by blast
    show ?thesis
    proof (cases "map_index es keys")
      case (Inl e)
      with run ks coh show ?thesis by (auto simp: entitiesProjector_def entitiesOf_def)
    next
      case (Inr vs)
      with run ks coh show ?thesis by (auto simp: entitiesProjector_def entitiesOf_def)
    qed
  next
    case False
    with run coh show ?thesis
      by (cases ks) (auto simp: entitiesProjector_def entitiesOf_def)
  qed
qed

lemma selectEntities_sound:
  assumes mp: "\<And>prev r. spec mp prev r \<longleftrightarrow> (\<exists>ks es. prev = [ks, es] \<and> entitiesOf ks es r)"
    and ms: "\<And>prev r. spec ms prev r \<longleftrightarrow> (\<exists>c. prev = [c] \<and> selectsEntities c r)"
  shows "sound spec (memoizedState mp ms [selectKeys, selectEntityMap] entitiesProjector c)
           (answers (selectsEntities c))"
proof (rule memoizedState2_sound
    [where ?Q1.0 = "\<lambda>r. r = property c ''ids''" and ?Q2.0 = "\<lambda>r. r = property c ''entities''"
       and P = "\<lambda>ks es. answers (entitiesOf ks es)"])
  show "sound spec (selectKeys c) (\<lambda>r. r = property c ''ids'')"
    by (rule soundI) (simp add: selectKeys_def)
  show "sound spec (selectEntityMap c) (\<lambda>r. r = property c ''entities'')"
    by (rule soundI) (simp add: selectEntityMap_def)
  show "sound spec (entitiesProjector [a, b]) (answers (entitiesOf a b))" for a b
    by (rule entitiesProjector_sound)
  show "answers (entitiesOf a b) (Inr v) \<longleftrightarrow> spec mp [a, b] v" for a b v
    by (simp add: mp)
  show "length prev = 2" if "spec mp prev r" for prev r
    using that by (auto simp: mp)
  show "answers (selectsEntities c) (Inr v) \<longleftrightarrow> spec ms [c] v" for v
    by (simp add: ms)
  show "length prev = 1" if "spec ms prev r" for prev r
    using that by (auto simp: ms)
  show "answers (selectsEntities c) r"
    if "Inr a = property c ''ids''" "Inr b = property c ''entities''" "answers (entitiesOf a b) r"
    for a b r
    using that by (cases r) (auto simp: selectsEntities_def dest: sym)
  show "answers (selectsEntities c) (Inl e)" if "Inl e = property c ''ids''" for e
    using that by (auto simp: selectsEntities_def dest: sym)
  show "answers (selectsEntities c) (Inl e)"
    if "Inr a = property c ''ids''" "Inl e = property c ''entities''" for a e
    using that by (auto simp: selectsEntities_def dest: sym)
qed

lemma selectCount_sound:
  assumes mp: "\<And>prev r. spec mp prev r \<longleftrightarrow> (\<exists>ks. prev = [ks] \<and> length_of ks = Inr r)"
    and ms: "\<And>prev r. spec ms prev r \<longleftrightarrow> (\<exists>c. prev = [c] \<and> selectsCount c r)"
  shows "sound spec (memoizedState mp ms [selectKeys] countProjector c) (answers (selectsCount c))"
proof (rule memoizedState1_sound
    [where ?Q1.0 = "\<lambda>r. r = property c ''ids''" and P = "\<lambda>ks r. r = length_of ks"])
  show "sound spec (selectKeys c) (\<lambda>r. r = property c ''ids'')"
    by (rule soundI) (simp add: selectKeys_def)
  show "sound spec (countProjector [a]) (\<lambda>r. r = length_of a)" for a
    by (rule soundI) (simp add: countProjector_def)
  show "(Inr v = length_of a) \<longleftrightarrow> spec mp [a] v" for a v
    by (auto simp: mp)
  show "length prev = 1" if "spec mp prev r" for prev r
    using that by (auto simp: mp)
  show "answers (selectsCount c) (Inr v) \<longleftrightarrow> spec ms [c] v" for v
    by (simp add: ms)
  show "length prev = 1" if "spec ms prev r" for prev r
    using that by (auto simp: ms)
  show "answers (selectsCount c) r" if "Inr a = property c ''ids''" "r = length_of a" for a r
  proof -
    from that(1) have p: "property c ''ids'' = Inr a" by simp
    show ?thesis
      by (cases "length_of a") (simp_all add: that(2) selectsCount_def p)
  qed
  show "answers (selectsCount c) (Inl e)" if "Inl e = property c ''ids''" for e
    using that by (auto simp: selectsCount_def dest: sym)
qed

lemma filterProjector_sound:
  "sound spec (filterProjector f [a, b]) (\<lambda>r. \<exists>x. r = Inr (fst (f a b x)))"
proof (rule soundI)
  fix w r w'
  assume coh: "coherent spec w" and run: "filterProjector f [a, b] w = (r, w')"
  obtain v n where "f a b (next_addr w) = (v, n)" by (cases "f a b (next_addr w)")
  with run coh have "coherent spec w'" and "r = Inr (fst (f a b (next_addr w)))"
    by (auto simp: filterProjector_def)
  then show "coherent spec w' \<and> (\<exists>x. r = Inr (fst (f a b x)))" by blast
qed

lemma selectFilteredEntities_sound:
  assumes e: "\<And>c. sound spec (selectEntities c) (answers (selectsEntities c))"
    and mp: "\<And>prev r. spec mp prev r \<longleftrightarrow> (\<exists>es p a. prev = [es, p] \<and> r = fst (f es p a))"
    and ms: "\<And>prev r. spec ms prev r \<longleftrightarrow> (\<exists>c. prev = [c] \<and> selectsFiltered f c r)"
  shows "sound spec (memoizedState mp ms [selectEntities, selectFilter] (filterProjector f) c)
           (answers (selectsFiltered f c))"
proof (rule memoizedState2_sound
    [where ?Q1.0 = "answers (selectsEntities c)" and ?Q2.0 = "\<lambda>r. r = property c ''filter''"
       and P = "\<lambda>es p r. \<exists>a. r = Inr (fst (f es p a))"])
  show "sound spec (selectEntities c) (answers (selectsEntities c))"
    by (rule e)
  show "sound spec (selectFilter c) (\<lambda>r. r = property c ''filter'')"
    by (rule soundI) (simp add: selectFilter_def)
  show "sound spec (filterProjector f [a, b]) (\<lambda>r. \<exists>x. r = Inr (fst (f a b x)))" for a b
    by (rule filterProjector_sound)
  show "(\<exists>x. Inr v = Inr (fst (f a b x))) \<longleftrightarrow> spec mp [a, b] v" for a b v
    by (auto simp: mp)
  show "length prev = 2" if "spec mp prev r" for prev r
    using that by (auto simp: mp)
  show "answers (selectsFiltered f c) (Inr v) \<longleftrightarrow> spec ms [c] v" for v
    by (simp add: ms)
  show "length prev = 1" if "spec ms prev r" for prev r
    using that by (auto simp: ms)
  show "answers (selectsFiltered f c) r"
    if "answers (selectsEntities c) (Inr a)" "Inr b = property c ''filter''"
      "\<exists>x. r = Inr (fst (f a b x))" for a b r
  proof -
    from that(2) have p: "property c ''filter'' = Inr b" by simp
    from that(3) obtain x where "r = Inr (fst (f a b x))" by blast
    with that(1) p show ?thesis
      by (auto simp: selectsFiltered_def)
  qed
  show "answers (selectsFiltered f c) (Inl e)" if "answers (selectsEntities c) (Inl e)" for e
    using that by (auto simp: selectsFiltered_def)
  show "answers (selectsFiltered f c) (Inl e)"
    if "answers (selectsEntities c) (Inr a)" "Inl e = property c ''filter''" for a e
    using that by (auto simp: selectsFiltered_def dest: sym)
qed

lemma reachable_coherent:
  assumes "reachable F w0 w" and "coherent spec w0"
    and "\<And>f x. f \<in> F \<Longrightarrow> sound spec (f x) (\<lambda>r. True)"
  shows "coherent spec w"
  using assms(1)
proof (induction rule: reachable.induct)
  case start
  show ?case by (rule assms(2))
next
  case (call w f x r w')
  from soundD [OF assms(3) [OF call.hyps(2)] call.IH call.hyps(3)] show ?case by simp
qed

lemma sound_True: "sound spec f Q \<Longrightarrow> sound spec f (\<lambda>r. True)"
  unfolding sound_def by blast

lemma plain_sound: "sound spec (\<lambda>w. (r, w)) (\<lambda>r. True)"
  by (rule soundI) simp

lemma memberSpec_cells:
  "memberSpec fn n0 n0 prev r \<longleftrightarrow> (\<exists>ks es. prev = [ks, es] \<and> entitiesOf ks es r)"
  "memberSpec fn n0 (n0 + 1) prev r \<longleftrightarrow> (\<exists>c. prev = [c] \<and> selectsEntities c r)"
  "memberSpec fn n0 (n0 + 2) prev r \<longleftrightarrow> (\<exists>ks. prev = [ks] \<and> length_of ks = Inr r)"
  "memberSpec fn n0 (n0 + 3) prev r \<longleftrightarrow> (\<exists>c. prev = [c] \<and> selectsCount c r)"
  "memberSpec (Some f) n0 (n0 + 4) prev r \<longleftrightarrow> (\<exists>es p a. prev = [es, p] \<and> r = fst (f es p a))"
  "memberSpec (Some f) n0 (n0 + 5) prev r \<longleftrightarrow> (\<exists>c. prev = [c] \<and> selectsFiltered f c r)"
  by (simp_all add: memberSpec_def)

text \<open>
  Every selector that \<open>builtinSelectors\<close> makes keeps a world coherent, for every
  specification of the cells that is \<open>memberSpec\<close> on the six cells of the build.
\<close>

lemma builtin_selectEntities_sound:
  assumes "\<And>n. n0 \<le> n \<Longrightarrow> n < n0 + 6 \<Longrightarrow> spec n = memberSpec fn n0 n"
  shows "sound spec (memoizedState n0 (n0 + 1) [selectKeys, selectEntityMap] entitiesProjector c)
           (answers (selectsEntities c))"
proof (rule selectEntities_sound)
  have "spec n0 = memberSpec fn n0 n0" by (rule assms) simp_all
  then show "spec n0 prev r \<longleftrightarrow> (\<exists>ks es. prev = [ks, es] \<and> entitiesOf ks es r)" for prev r
    by (simp only: memberSpec_cells)
  have "spec (n0 + 1) = memberSpec fn n0 (n0 + 1)" by (rule assms) simp_all
  then show "spec (n0 + 1) prev r \<longleftrightarrow> (\<exists>c. prev = [c] \<and> selectsEntities c r)" for prev r
    by (simp only: memberSpec_cells)
qed

lemma builtin_selectCount_sound:
  assumes "\<And>n. n0 \<le> n \<Longrightarrow> n < n0 + 6 \<Longrightarrow> spec n = memberSpec fn n0 n"
  shows "sound spec (memoizedState (n0 + 2) (n0 + 3) [selectKeys] countProjector c)
           (answers (selectsCount c))"
proof (rule selectCount_sound)
  have "spec (n0 + 2) = memberSpec fn n0 (n0 + 2)" by (rule assms) simp_all
  then show "spec (n0 + 2) prev r \<longleftrightarrow> (\<exists>ks. prev = [ks] \<and> length_of ks = Inr r)" for prev r
    by (simp only: memberSpec_cells)
  have "spec (n0 + 3) = memberSpec fn n0 (n0 + 3)" by (rule assms) simp_all
  then show "spec (n0 + 3) prev r \<longleftrightarrow> (\<exists>c. prev = [c] \<and> selectsCount c r)" for prev r
    by (simp only: memberSpec_cells)
qed

lemma builtin_selectFilteredEntities_sound:
  assumes "\<And>n. n0 \<le> n \<Longrightarrow> n < n0 + 6 \<Longrightarrow> spec n = memberSpec (Some f) n0 n"
  shows "sound spec
           (memoizedState (n0 + 4) (n0 + 5)
              [memoizedState n0 (n0 + 1) [selectKeys, selectEntityMap] entitiesProjector, selectFilter]
              (filterProjector f) c)
           (answers (selectsFiltered f c))"
proof (rule selectFilteredEntities_sound)
  show "sound spec (memoizedState n0 (n0 + 1) [selectKeys, selectEntityMap] entitiesProjector c)
          (answers (selectsEntities c))" for c
    by (rule builtin_selectEntities_sound [OF assms])
  have "spec (n0 + 4) = memberSpec (Some f) n0 (n0 + 4)" by (rule assms) simp_all
  then show "spec (n0 + 4) prev r \<longleftrightarrow> (\<exists>es p a. prev = [es, p] \<and> r = fst (f es p a))" for prev r
    by (simp only: memberSpec_cells)
  have "spec (n0 + 5) = memberSpec (Some f) n0 (n0 + 5)" by (rule assms) simp_all
  then show "spec (n0 + 5) prev r \<longleftrightarrow> (\<exists>c. prev = [c] \<and> selectsFiltered f c r)" for prev r
    by (simp only: memberSpec_cells)
qed

lemma builtin_member_sound:
  assumes spec: "\<And>n. next_cell w0 \<le> n \<Longrightarrow> n < next_cell w0 + 6 \<Longrightarrow> spec n = memberSpec fn (next_cell w0) n"
    and m: "m \<in> snd ` set (fst (builtinSelectors fn w0))"
  shows "sound spec (m c) (\<lambda>r. True)"
proof -
  let ?n = "next_cell w0"
  let ?entities = "memoizedState ?n (?n + 1) [selectKeys, selectEntityMap] entitiesProjector"
  let ?count = "memoizedState (?n + 2) (?n + 3) [selectKeys] countProjector"
  have plain: "sound spec (selectKeys c) (\<lambda>r. True)" "sound spec (selectEntityMap c) (\<lambda>r. True)"
    "sound spec (selectFilter c) (\<lambda>r. True)" "sound spec (selectLoaded c) (\<lambda>r. True)"
    "sound spec (selectLoading c) (\<lambda>r. True)" "sound spec (selectOriginalValues c) (\<lambda>r. True)"
    by (rule soundI, simp add: selectKeys_def selectEntityMap_def selectFilter_def
        selectLoaded_def selectLoading_def selectOriginalValues_def)+
  have e: "sound spec (?entities c) (\<lambda>r. True)"
    by (rule sound_True [OF builtin_selectEntities_sound [OF spec]])
  have n: "sound spec (?count c) (\<lambda>r. True)"
    by (rule sound_True [OF builtin_selectCount_sound [OF spec]])
  show ?thesis
  proof (cases fn)
    case None
    with m have "m = selectKeys \<or> m = selectEntityMap \<or> m = selectFilter \<or> m = selectLoaded
        \<or> m = selectLoading \<or> m = selectOriginalValues \<or> m = ?entities \<or> m = ?count"
      by (auto simp: builtinSelectors_None)
    with plain e n show ?thesis by blast
  next
    case (Some f)
    let ?filtered = "memoizedState (?n + 4) (?n + 5) [?entities, selectFilter] (filterProjector f)"
    have f: "sound spec (?filtered c) (\<lambda>r. True)"
      by (rule sound_True [OF builtin_selectFilteredEntities_sound]) (rule spec [unfolded Some])
    from Some m have "m = selectKeys \<or> m = selectEntityMap \<or> m = selectFilter \<or> m = selectLoaded
        \<or> m = selectLoading \<or> m = selectOriginalValues \<or> m = ?entities \<or> m = ?count
        \<or> m = ?filtered"
      by (auto simp: builtinSelectors_Some)
    with plain e n f show ?thesis by blast
  qed
qed

lemma extraSelector_sound: "sound spec (extraSelector k c) (\<lambda>r. True)"
  by (rule soundI) (simp add: extraSelector_def)

lemma builtinSelectors_world:
  "snd (builtinSelectors fn w) = w\<lparr>next_cell := next_cell w + (case fn of None \<Rightarrow> 4 | Some f \<Rightarrow> 6)\<rparr>"
  by (cases fn) (simp_all add: builtinSelectors_None builtinSelectors_Some)

lemma memberSpec_initial:
  assumes "unused w"
  shows "coherent (memberSpec fn (next_cell w)) w"
  unfolding coherent_def
proof (intro allI impI)
  fix n prev r
  assume c: "cells w n = Some (prev, r)"
  with assms have "n < next_cell w"
    by (auto simp: unused_def intro: ccontr)
  then show "memberSpec fn (next_cell w) n prev r"
    by (simp add: memberSpec_def split: option.splits)
qed

lemma is_collection_cases:
  assumes "is_collection c"
  obtains a ps t keys t' es where "c = VObject a ps" and "map_of ps ''ids'' = Some (VArray t keys)"
    and "list_all is_key keys" and "map_of ps ''entities'' = Some (VObject t' es)"
  using assms unfolding is_collection_def by (auto split: val.split_asm option.split_asm)

lemma index_key: "is_key k \<Longrightarrow> \<exists>v. index (VObject t es) k = Inr v"
  by (cases k) (simp_all add: index_def)

lemma map_index_total:
  "list_all is_key keys \<Longrightarrow> \<exists>vs. map_index (VObject t es) keys = Inr vs"
proof (induction keys)
  case Nil
  show ?case by simp
next
  case (Cons k keys)
  then obtain vs where "map_index (VObject t es) keys = Inr vs" by auto
  moreover from Cons.prems obtain v where "index (VObject t es) k = Inr v"
    using index_key [of k t es] by auto
  ultimately show ?case by simp
qed

lemma map_index_nth:
  "map_index ents keys = Inr vs \<Longrightarrow>
   length vs = length keys \<and> (\<forall>i < length keys. index ents (keys ! i) = Inr (vs ! i))"
proof (induction keys arbitrary: vs)
  case Nil
  then show ?case by simp
next
  case (Cons k keys)
  from Cons.prems obtain v vs' where v: "index ents k = Inr v"
    and vs': "map_index ents keys = Inr vs'" and vs: "vs = v # vs'"
    by (auto split: sum.splits)
  from Cons.IH [OF vs'] v vs show ?case
    by (auto simp: nth_Cons split: nat.splits)
qed

lemma builtin_reachable_coherent:
  assumes build: "builtinSelectors fn w0 = (b, w1)" and fresh: "unused w0"
    and reach: "reachable (snd ` set b) w1 w"
  shows "coherent (memberSpec fn (next_cell w0)) w"
proof (rule reachable_coherent [OF reach])
  from build have "w1 = snd (builtinSelectors fn w0)" by simp
  then have "cells w1 = cells w0" by (simp add: builtinSelectors_world)
  with memberSpec_initial [OF fresh, of fn] show "coherent (memberSpec fn (next_cell w0)) w1"
    by (simp add: coherent_def)
  show "sound (memberSpec fn (next_cell w0)) (f x) (\<lambda>r. True)" if "f \<in> snd ` set b" for f x
  proof (rule builtin_member_sound)
    from that build show "f \<in> snd ` set (fst (builtinSelectors fn w0))" by simp
  qed simp
qed

lemma builtinSelectors_lookup:
  "map_of (fst (builtinSelectors fn w)) ''selectKeys'' = Some selectKeys"
  "map_of (fst (builtinSelectors fn w)) ''selectEntityMap'' = Some selectEntityMap"
  "map_of (fst (builtinSelectors fn w)) ''selectEntities'' =
     Some (memoizedState (next_cell w) (next_cell w + 1) [selectKeys, selectEntityMap] entitiesProjector)"
  "map_of (fst (builtinSelectors fn w)) ''selectCount'' =
     Some (memoizedState (next_cell w + 2) (next_cell w + 3) [selectKeys] countProjector)"
  by (cases fn; simp add: builtinSelectors_None builtinSelectors_Some)+

lemma member_reachable_coherent:
  fixes metadata :: "'a EntityMetadata"
  assumes build: "createCollectionSelectors metadata w0 = (Inr S, w1)" and fresh: "unused w0"
    and reach: "reachable (snd ` set S) w1 w"
  shows "coherent (memberSpec (filterFn metadata) (next_cell w0)) w"
proof (rule reachable_coherent [OF reach])
  let ?fn = "filterFn metadata"
  from createCollectionSelectors_Inr [OF createCollectionSelectors_nameable [OF build], of w0] build
  have "w1 = snd (builtinSelectors ?fn w0)" by auto
  then have "cells w1 = cells w0" by (simp add: builtinSelectors_world)
  with memberSpec_initial [OF fresh, of ?fn] show "coherent (memberSpec ?fn (next_cell w0)) w1"
    by (simp add: coherent_def)
  show "sound (memberSpec ?fn (next_cell w0)) (f x) (\<lambda>r. True)" if "f \<in> snd ` set S" for f x
  proof -
    from that obtain k where "(k, f) \<in> set S" by auto
    with createCollectionSelectors_distinct [OF build] have "map_of S k = Some f" by simp
    from createCollectionSelectors_values [OF build this]
    show ?thesis
    proof
      assume "f \<in> snd ` set (fst (builtinSelectors ?fn w0))"
      then show ?thesis by (rule builtin_member_sound [rotated]) simp
    next
      assume "\<exists>j. f = extraSelector j"
      then show ?thesis by (auto intro: extraSelector_sound)
    qed
  qed
qed

lemma invoke_builtin:
  fixes metadata :: "'a EntityMetadata"
  assumes "createCollectionSelectors metadata w0 = (Inr S, w1)"
    and "lastField (declaredFields metadata) name = None"
  shows "invoke S name = invoke (fst (builtinSelectors (filterFn metadata) w0)) name"
  using createCollectionSelectors_map_of [OF assms(1), of name] assms(2)
  by (intro ext) (simp add: invoke_def)

subsection \<open>Entity list and keys\<close>

lemma builtin_entity_list:
  assumes coh: "coherent (memberSpec fn (next_cell w0)) w" and coll: "is_collection c"
  shows "\<exists>t keys ents a es w2 w3.
       invoke (fst (builtinSelectors fn w0)) ''selectKeys'' c w = (Inr (VArray t keys), w)
     \<and> invoke (fst (builtinSelectors fn w0)) ''selectEntityMap'' c w = (Inr ents, w)
     \<and> invoke (fst (builtinSelectors fn w0)) ''selectEntities'' c w = (Inr (VArray a es), w2)
     \<and> invoke (fst (builtinSelectors fn w0)) ''selectCount'' c w = (Inr (VNum (int (length keys))), w3)
     \<and> map_index ents keys = Inr es
     \<and> length es = length keys
     \<and> length_of (VArray a es) = length_of (VArray t keys)
     \<and> (\<forall>i < length keys. index ents (keys ! i) = Inr (es ! i))"
proof -
  let ?n = "next_cell w0"
  let ?spec = "memberSpec fn ?n"
  let ?b = "fst (builtinSelectors fn w0)"
  from coll obtain tag ps t keys t' ents where c: "c = VObject tag ps"
    and ids: "map_of ps ''ids'' = Some (VArray t keys)" and keys: "list_all is_key keys"
    and entities: "map_of ps ''entities'' = Some (VObject t' ents)"
    by (rule is_collection_cases)
  have pi: "property c ''ids'' = Inr (VArray t keys)"
    and pe: "property c ''entities'' = Inr (VObject t' ents)"
    by (simp_all add: c ids entities)
  have k: "invoke ?b ''selectKeys'' c w = (Inr (VArray t keys), w)"
    by (simp add: invoke_def builtinSelectors_lookup selectKeys_def pi)
  have m: "invoke ?b ''selectEntityMap'' c w = (Inr (VObject t' ents), w)"
    by (simp add: invoke_def builtinSelectors_lookup selectEntityMap_def pe)
  from map_index_total [OF keys] obtain vs0 where vs0: "map_index (VObject t' ents) keys = Inr vs0"
    by blast
  obtain r w2 where e: "invoke ?b ''selectEntities'' c w = (r, w2)"
    by (cases "invoke ?b ''selectEntities'' c w")
  then have "memoizedState ?n (?n + 1) [selectKeys, selectEntityMap] entitiesProjector c w = (r, w2)"
    by (simp add: invoke_def builtinSelectors_lookup)
  from soundD [OF builtin_selectEntities_sound coh this]
  have "answers (selectsEntities c) r" by simp
  moreover have "selectsEntities c (VArray 0 vs0)"
    unfolding selectsEntities_def entitiesOf_def using pi pe vs0 by blast
  ultimately obtain v where "r = Inr v" and "selectsEntities c v"
    by (blast dest: answers_total)
  then obtain a es where r: "r = Inr (VArray a es)" and es: "map_index (VObject t' ents) keys = Inr es"
    unfolding selectsEntities_def entitiesOf_def using pi pe by auto
  obtain r' w3 where n: "invoke ?b ''selectCount'' c w = (r', w3)"
    by (cases "invoke ?b ''selectCount'' c w")
  then have "memoizedState (?n + 2) (?n + 3) [selectKeys] countProjector c w = (r', w3)"
    by (simp add: invoke_def builtinSelectors_lookup)
  from soundD [OF builtin_selectCount_sound coh this]
  have "answers (selectsCount c) r'" by simp
  moreover have "selectsCount c (VNum (int (length keys)))"
    unfolding selectsCount_def using pi by simp
  ultimately obtain v' where "r' = Inr v'" and "selectsCount c v'"
    by (blast dest: answers_total)
  then have r': "r' = Inr (VNum (int (length keys)))"
    unfolding selectsCount_def using pi by auto
  from map_index_nth [OF es] k m e n r r' es show ?thesis
    by (intro exI [of _ t] exI [of _ keys] exI [of _ "VObject t' ents"] exI [of _ a] exI [of _ es]
        exI [of _ w2] exI [of _ w3]) simp
qed

text \<open>
  C1. Let the selector name of every declared additional field be formed and be none of
  \<open>selectKeys\<close>, \<open>selectEntityMap\<close>, \<open>selectEntities\<close> and \<open>selectCount\<close>, and let the
  cells that are free at the build be unused. Then \<open>createCollectionSelectors\<close> returns
  an object \<open>S\<close> of selectors, and in every world \<open>w\<close> that calls of the selectors of
  \<open>S\<close> lead to, for every collection \<open>c\<close> that is typed as a collection (whether or not
  \<open>ids\<close> and \<open>entities\<close> are in sync): \<open>selectKeys\<close> of \<open>S\<close> returns the array of keys
  and \<open>selectEntityMap\<close> the entity map of \<open>c\<close>; \<open>selectEntities\<close> returns an array
  \<open>es\<close> that is the keys mapped through the entity map in key order; it is as long as the
  keys, \<open>selectCount\<close> returns this length, and the element at every index \<open>i\<close> is the
  entity map at the \<open>i\<close>-th key.
\<close>

theorem entity_list_follows_keys:
  fixes metadata :: "'a EntityMetadata"
  assumes names: "list_all nameable (declaredFields metadata)"
    and free: "\<forall>name \<in> set [''selectKeys'', ''selectEntityMap'', ''selectEntities'', ''selectCount''].
                 lastField (declaredFields metadata) name = None"
    and fresh: "unused w0"
    and coll: "is_collection c"
  shows "\<exists>S w1. createCollectionSelectors metadata w0 = (Inr S, w1)
     \<and> (\<forall>w. reachable (snd ` set S) w1 w \<longrightarrow>
          (\<exists>t keys ents a es w2 w3.
               invoke S ''selectKeys'' c w = (Inr (VArray t keys), w)
             \<and> invoke S ''selectEntityMap'' c w = (Inr ents, w)
             \<and> invoke S ''selectEntities'' c w = (Inr (VArray a es), w2)
             \<and> invoke S ''selectCount'' c w = (Inr (VNum (int (length keys))), w3)
             \<and> map_index ents keys = Inr es
             \<and> length es = length keys
             \<and> length_of (VArray a es) = length_of (VArray t keys)
             \<and> (\<forall>i < length keys. index ents (keys ! i) = Inr (es ! i))))"
proof -
  let ?fn = "filterFn metadata"
  from createCollectionSelectors_Inr [OF names, of w0]
  obtain S where build: "createCollectionSelectors metadata w0 = (Inr S, snd (builtinSelectors ?fn w0))"
    by blast
  from free have i: "invoke S ''selectKeys'' = invoke (fst (builtinSelectors ?fn w0)) ''selectKeys''"
    "invoke S ''selectEntityMap'' = invoke (fst (builtinSelectors ?fn w0)) ''selectEntityMap''"
    "invoke S ''selectEntities'' = invoke (fst (builtinSelectors ?fn w0)) ''selectEntities''"
    "invoke S ''selectCount'' = invoke (fst (builtinSelectors ?fn w0)) ''selectCount''"
    by (simp_all add: invoke_builtin [OF build])
  have "\<exists>t keys ents a es w2 w3.
               invoke S ''selectKeys'' c w = (Inr (VArray t keys), w)
             \<and> invoke S ''selectEntityMap'' c w = (Inr ents, w)
             \<and> invoke S ''selectEntities'' c w = (Inr (VArray a es), w2)
             \<and> invoke S ''selectCount'' c w = (Inr (VNum (int (length keys))), w3)
             \<and> map_index ents keys = Inr es
             \<and> length es = length keys
             \<and> length_of (VArray a es) = length_of (VArray t keys)
             \<and> (\<forall>i < length keys. index ents (keys ! i) = Inr (es ! i))"
    if reach: "reachable (snd ` set S) (snd (builtinSelectors ?fn w0)) w" for w
    unfolding i
    by (rule builtin_entity_list [OF member_reachable_coherent [OF build fresh reach] coll])
  with build show ?thesis by blast
qed

lemma unused_example_world: "unused example_world"
  by (simp add: unused_def example_world_def)

lemma is_collection_example: "is_collection example_collection"
  by (simp add: is_collection_def example_collection_def)

lemma map_index_example:
  "map_index (VObject 12 [(''1'', VEntity (1, ''a'')), (''2'', VEntity (2, ''b''))]) [VNum 1, VNum 2]
     = Inr [VEntity (1, ''a''), VEntity (2, ''b'') :: hero val]"
  by (simp add: index_def show_int_def show_nat.simps digit_def)

lemma example_fields: "declaredFields example_metadata = [''loadedAt'']"
  by (simp add: declaredFields_def declaredState_def Object_keys_def example_metadata_def)

theorem entity_list_follows_keys_witness:
  "list_all nameable (declaredFields example_metadata)
   \<and> lastField (declaredFields example_metadata) ''selectKeys'' = None
   \<and> lastField (declaredFields example_metadata) ''selectEntityMap'' = None
   \<and> lastField (declaredFields example_metadata) ''selectEntities'' = None
   \<and> lastField (declaredFields example_metadata) ''selectCount'' = None
   \<and> unused example_world
   \<and> is_collection example_collection
   \<and> reachable (snd ` set example_members) members_world members_world
   \<and> fst (invoke example_members ''selectKeys'' example_collection members_world)
        = Inr (VArray 11 [VNum 1, VNum 2])
   \<and> (\<exists>a. fst (invoke example_members ''selectEntities'' example_collection members_world)
          = Inr (VArray a [VEntity (1, ''a''), VEntity (2, ''b'')]))
   \<and> fst (invoke example_members ''selectCount'' example_collection members_world) = Inr (VNum 2)"
proof -
  have names: "list_all nameable (declaredFields example_metadata)"
    by (simp add: example_fields)
  have l: "lastField (declaredFields example_metadata) ''selectKeys'' = None"
    "lastField (declaredFields example_metadata) ''selectEntityMap'' = None"
    "lastField (declaredFields example_metadata) ''selectEntities'' = None"
    "lastField (declaredFields example_metadata) ''selectCount'' = None"
    by (simp_all add: example_fields upper_ascii_def)
  then have free: "\<forall>name \<in> set [''selectKeys'', ''selectEntityMap'', ''selectEntities'', ''selectCount''].
      lastField (declaredFields example_metadata) name = None"
    by simp
  have reach: "reachable (snd ` set example_members) members_world members_world"
    by (rule reachable.start)
  from entity_list_follows_keys [OF names free unused_example_world is_collection_example]
  obtain S w1 where build: "createCollectionSelectors example_metadata example_world = (Inr S, w1)"
    and all: "\<forall>w. reachable (snd ` set S) w1 w \<longrightarrow>
          (\<exists>t keys ents a es w2 w3.
               invoke S ''selectKeys'' example_collection w = (Inr (VArray t keys), w)
             \<and> invoke S ''selectEntityMap'' example_collection w = (Inr ents, w)
             \<and> invoke S ''selectEntities'' example_collection w = (Inr (VArray a es), w2)
             \<and> invoke S ''selectCount'' example_collection w = (Inr (VNum (int (length keys))), w3)
             \<and> map_index ents keys = Inr es
             \<and> length es = length keys
             \<and> length_of (VArray a es) = length_of (VArray t keys)
             \<and> (\<forall>i < length keys. index ents (keys ! i) = Inr (es ! i)))"
    by blast
  from build have S: "example_members = S" and w1: "members_world = w1"
    by (simp_all add: example_members_def members_world_def selectorsOf_def)
  from all reach obtain t keys ents a es w2 w3 where
    k: "invoke example_members ''selectKeys'' example_collection members_world
          = (Inr (VArray t keys), members_world)"
    and m: "invoke example_members ''selectEntityMap'' example_collection members_world
          = (Inr ents, members_world)"
    and e: "invoke example_members ''selectEntities'' example_collection members_world
          = (Inr (VArray a es), w2)"
    and n: "invoke example_members ''selectCount'' example_collection members_world
          = (Inr (VNum (int (length keys))), w3)"
    and es: "map_index ents keys = Inr es"
    unfolding S w1 by blast
  have ib: "invoke example_members name = invoke (fst (builtinSelectors None example_world)) name"
    if "lastField (declaredFields example_metadata) name = None" for name
    using invoke_builtin [OF build that] by (simp add: S example_metadata_def)
  from k have keys: "t = 11 \<and> keys = [VNum 1, VNum 2]"
    by (simp add: ib l invoke_def builtinSelectors_lookup selectKeys_def example_collection_def)
  from m have ents: "ents = VObject 12 [(''1'', VEntity (1, ''a'')), (''2'', VEntity (2, ''b''))]"
    by (simp add: ib l invoke_def builtinSelectors_lookup selectEntityMap_def example_collection_def)
  from keys have keys': "keys = [VNum 1, VNum 2]" by simp
  from es have "es = [VEntity (1, ''a''), VEntity (2, ''b'')]"
    unfolding keys' ents map_index_example by simp
  with k e n keys show ?thesis
    using names l unused_example_world is_collection_example reach by simp
qed

subsection \<open>Filter application\<close>

lemma builtin_filtered_entities:
  assumes coh: "coherent (memberSpec (Some f) (next_cell w0)) w" and coll: "is_collection c"
  shows "\<exists>t keys ents a es p x w'.
       invoke (fst (builtinSelectors (Some f) w0)) ''selectKeys'' c w = (Inr (VArray t keys), w)
     \<and> invoke (fst (builtinSelectors (Some f) w0)) ''selectEntityMap'' c w = (Inr ents, w)
     \<and> map_index ents keys = Inr es
     \<and> invoke (fst (builtinSelectors (Some f) w0)) ''selectFilter'' c w = (Inr p, w)
     \<and> invoke (fst (builtinSelectors (Some f) w0)) ''selectFilteredEntities'' c w
          = (Inr (fst (f (VArray a es) p x)), w')"
proof -
  let ?n = "next_cell w0"
  let ?spec = "memberSpec (Some f) ?n"
  let ?b = "fst (builtinSelectors (Some f) w0)"
  from coll obtain tag ps t keys t' ents where c: "c = VObject tag ps"
    and ids: "map_of ps ''ids'' = Some (VArray t keys)" and keys: "list_all is_key keys"
    and entities: "map_of ps ''entities'' = Some (VObject t' ents)"
    by (rule is_collection_cases)
  have pi: "property c ''ids'' = Inr (VArray t keys)"
    and pe: "property c ''entities'' = Inr (VObject t' ents)"
    by (simp_all add: c ids entities)
  obtain p where pf: "property c ''filter'' = Inr p"
    by (simp add: c)
  have k: "invoke ?b ''selectKeys'' c w = (Inr (VArray t keys), w)"
    by (simp add: invoke_def builtinSelectors_lookup selectKeys_def pi)
  have m: "invoke ?b ''selectEntityMap'' c w = (Inr (VObject t' ents), w)"
    by (simp add: invoke_def builtinSelectors_lookup selectEntityMap_def pe)
  have sf: "invoke ?b ''selectFilter'' c w = (Inr p, w)"
    by (simp add: invoke_def builtinSelectors_Some selectFilter_def pf)
  from map_index_total [OF keys] obtain vs0 where vs0: "map_index (VObject t' ents) keys = Inr vs0"
    by blast
  obtain r w' where e: "invoke ?b ''selectFilteredEntities'' c w = (r, w')"
    by (cases "invoke ?b ''selectFilteredEntities'' c w")
  then have "memoizedState (?n + 4) (?n + 5)
              [memoizedState ?n (?n + 1) [selectKeys, selectEntityMap] entitiesProjector, selectFilter]
              (filterProjector f) c w = (r, w')"
    by (simp add: invoke_def builtinSelectors_Some)
  from soundD [OF builtin_selectFilteredEntities_sound coh this]
  have "answers (selectsFiltered f c) r" by simp
  moreover have "selectsFiltered f c (fst (f (VArray 0 vs0) p 0))"
    unfolding selectsFiltered_def selectsEntities_def entitiesOf_def using pi pe pf vs0 by blast
  ultimately obtain v where "r = Inr v" and "selectsFiltered f c v"
    by (blast dest: answers_total)
  then obtain a es x where r: "r = Inr (fst (f (VArray a es) p x))"
    and es: "map_index (VObject t' ents) keys = Inr es"
    unfolding selectsFiltered_def selectsEntities_def entitiesOf_def using pi pe pf by auto
  from k m sf e r es show ?thesis by blast
qed

text \<open>
  C6. Let the configuration have the filter function \<open>f\<close>, let the selector name of every
  declared additional field be formed and be none of \<open>selectKeys\<close>, \<open>selectEntityMap\<close>,
  \<open>selectFilter\<close> and \<open>selectFilteredEntities\<close>, and let the cells that are free at the
  build be unused. Then \<open>createCollectionSelectors\<close> returns an object \<open>S\<close> of selectors,
  and in every world \<open>w\<close> that calls of the selectors of \<open>S\<close> lead to, for every
  collection \<open>c\<close> that is typed as a collection, \<open>selectFilteredEntities\<close> of \<open>S\<close> returns
  what \<open>f\<close> returns for the entity list of \<open>c\<close> (an array of the keys mapped through the
  entity map, as \<open>selectEntities\<close> returns it) and the filter pattern of \<open>c\<close> (what
  \<open>selectFilter\<close> returns).
\<close>

theorem filtered_entities_apply_filterFn:
  fixes metadata :: "'a EntityMetadata"
  assumes fn: "filterFn metadata = Some f"
    and names: "list_all nameable (declaredFields metadata)"
    and free: "\<forall>name \<in> set [''selectKeys'', ''selectEntityMap'', ''selectFilter'', ''selectFilteredEntities''].
                 lastField (declaredFields metadata) name = None"
    and fresh: "unused w0"
    and coll: "is_collection c"
  shows "\<exists>S w1. createCollectionSelectors metadata w0 = (Inr S, w1)
     \<and> (\<forall>w. reachable (snd ` set S) w1 w \<longrightarrow>
          (\<exists>t keys ents a es p x w'.
               invoke S ''selectKeys'' c w = (Inr (VArray t keys), w)
             \<and> invoke S ''selectEntityMap'' c w = (Inr ents, w)
             \<and> map_index ents keys = Inr es
             \<and> invoke S ''selectFilter'' c w = (Inr p, w)
             \<and> invoke S ''selectFilteredEntities'' c w = (Inr (fst (f (VArray a es) p x)), w')))"
proof -
  from createCollectionSelectors_Inr [OF names, of w0]
  obtain S where build: "createCollectionSelectors metadata w0
      = (Inr S, snd (builtinSelectors (filterFn metadata) w0))"
    by blast
  from free have i: "invoke S ''selectKeys'' = invoke (fst (builtinSelectors (Some f) w0)) ''selectKeys''"
    "invoke S ''selectEntityMap'' = invoke (fst (builtinSelectors (Some f) w0)) ''selectEntityMap''"
    "invoke S ''selectFilter'' = invoke (fst (builtinSelectors (Some f) w0)) ''selectFilter''"
    "invoke S ''selectFilteredEntities''
       = invoke (fst (builtinSelectors (Some f) w0)) ''selectFilteredEntities''"
    by (simp_all add: invoke_builtin [OF build] fn)
  have "\<exists>t keys ents a es p x w'.
               invoke S ''selectKeys'' c w = (Inr (VArray t keys), w)
             \<and> invoke S ''selectEntityMap'' c w = (Inr ents, w)
             \<and> map_index ents keys = Inr es
             \<and> invoke S ''selectFilter'' c w = (Inr p, w)
             \<and> invoke S ''selectFilteredEntities'' c w = (Inr (fst (f (VArray a es) p x)), w')"
    if reach: "reachable (snd ` set S) (snd (builtinSelectors (filterFn metadata) w0)) w" for w
  proof -
    from member_reachable_coherent [OF build fresh reach]
    have "coherent (memberSpec (Some f) (next_cell w0)) w" by (simp add: fn)
    from builtin_filtered_entities [OF this coll] show ?thesis
      unfolding i .
  qed
  with build show ?thesis by blast
qed

theorem filtered_entities_apply_filterFn_witness:
  "filterFn filtering_metadata = Some nameFilter
   \<and> list_all nameable (declaredFields filtering_metadata)
   \<and> lastField (declaredFields filtering_metadata) ''selectKeys'' = None
   \<and> lastField (declaredFields filtering_metadata) ''selectEntityMap'' = None
   \<and> lastField (declaredFields filtering_metadata) ''selectFilter'' = None
   \<and> lastField (declaredFields filtering_metadata) ''selectFilteredEntities'' = None
   \<and> unused example_world
   \<and> is_collection example_collection
   \<and> reachable (snd ` set filtering_members) filtering_world filtering_world
   \<and> fst (invoke filtering_members ''selectFilter'' example_collection filtering_world) = Inr (VStr ''a'')
   \<and> (\<exists>x. fst (invoke filtering_members ''selectFilteredEntities'' example_collection filtering_world)
          = Inr (VArray x [VEntity (1, ''a'')]))"
proof -
  have fn: "filterFn filtering_metadata = Some nameFilter"
    by (simp add: filtering_metadata_def)
  have fields: "declaredFields filtering_metadata = [''loadedAt'']"
    by (simp add: declaredFields_def declaredState_def Object_keys_def filtering_metadata_def)
  have names: "list_all nameable (declaredFields filtering_metadata)"
    by (simp add: fields)
  have l: "lastField (declaredFields filtering_metadata) ''selectKeys'' = None"
    "lastField (declaredFields filtering_metadata) ''selectEntityMap'' = None"
    "lastField (declaredFields filtering_metadata) ''selectFilter'' = None"
    "lastField (declaredFields filtering_metadata) ''selectFilteredEntities'' = None"
    by (simp_all add: fields upper_ascii_def)
  then have free: "\<forall>name \<in> set [''selectKeys'', ''selectEntityMap'', ''selectFilter'', ''selectFilteredEntities''].
      lastField (declaredFields filtering_metadata) name = None"
    by simp
  have reach: "reachable (snd ` set filtering_members) filtering_world filtering_world"
    by (rule reachable.start)
  from filtered_entities_apply_filterFn
    [OF fn names free unused_example_world is_collection_example]
  obtain S w1 where build: "createCollectionSelectors filtering_metadata example_world = (Inr S, w1)"
    and all: "\<forall>w. reachable (snd ` set S) w1 w \<longrightarrow>
          (\<exists>t keys ents a es p x w'.
               invoke S ''selectKeys'' example_collection w = (Inr (VArray t keys), w)
             \<and> invoke S ''selectEntityMap'' example_collection w = (Inr ents, w)
             \<and> map_index ents keys = Inr es
             \<and> invoke S ''selectFilter'' example_collection w = (Inr p, w)
             \<and> invoke S ''selectFilteredEntities'' example_collection w
                  = (Inr (fst (nameFilter (VArray a es) p x)), w'))"
    by blast
  from build have S: "filtering_members = S" and w1: "filtering_world = w1"
    by (simp_all add: filtering_members_def filtering_world_def selectorsOf_def)
  from all reach obtain t keys ents a es p x w' where
    k: "invoke filtering_members ''selectKeys'' example_collection filtering_world
          = (Inr (VArray t keys), filtering_world)"
    and m: "invoke filtering_members ''selectEntityMap'' example_collection filtering_world
          = (Inr ents, filtering_world)"
    and es: "map_index ents keys = Inr es"
    and sf: "invoke filtering_members ''selectFilter'' example_collection filtering_world
          = (Inr p, filtering_world)"
    and e: "invoke filtering_members ''selectFilteredEntities'' example_collection filtering_world
          = (Inr (fst (nameFilter (VArray a es) p x)), w')"
    unfolding S w1 by blast
  have ib: "invoke filtering_members name = invoke (fst (builtinSelectors (Some nameFilter) example_world)) name"
    if "lastField (declaredFields filtering_metadata) name = None" for name
    using invoke_builtin [OF build that] by (simp add: S fn)
  from k have keys: "keys = [VNum 1, VNum 2]"
    by (simp add: ib l invoke_def builtinSelectors_lookup selectKeys_def example_collection_def)
  from m have ents: "ents = VObject 12 [(''1'', VEntity (1, ''a'')), (''2'', VEntity (2, ''b''))]"
    by (simp add: ib l invoke_def builtinSelectors_lookup selectEntityMap_def example_collection_def)
  from es have es': "es = [VEntity (1, ''a''), VEntity (2, ''b'')]"
    unfolding keys ents map_index_example by simp
  from sf have p: "p = VStr ''a''"
    by (simp add: ib l invoke_def builtinSelectors_Some selectFilter_def example_collection_def)
  have "fst (nameFilter (VArray a es) p x) = VArray x [VEntity (1, ''a'')]"
    by (simp add: es' p nameFilter_def)
  with e sf p show ?thesis
    using fn names l unused_example_world is_collection_example reach by simp
qed

subsection \<open>The cells a selector writes\<close>

lemma modifiesI:
  "(\<And>w r w'. f w = (r, w') \<Longrightarrow> next_cell w' = next_cell w \<and> (\<forall>n. n \<notin> A \<longrightarrow> cells w' n = cells w n))
   \<Longrightarrow> modifies A f"
  unfolding modifies_def by blast

lemma modifiesD:
  "modifies A f \<Longrightarrow> f w = (r, w') \<Longrightarrow> next_cell w' = next_cell w \<and> (\<forall>n. n \<notin> A \<longrightarrow> cells w' n = cells w n)"
  unfolding modifies_def by blast

lemma modifies_mono: "modifies A f \<Longrightarrow> A \<subseteq> B \<Longrightarrow> modifies B f"
  unfolding modifies_def by blast

lemma modifies_pure: "modifies A (\<lambda>w. (r, w))"
  by (rule modifiesI) simp

lemma memoize_modifies:
  assumes "modifies A (t args)"
  shows "modifies (insert n A) (memoize n t args)"
proof (rule modifiesI)
  fix w r w'
  assume run: "memoize n t args w = (r, w')"
  obtain r1 w1 where r1: "t args (w\<lparr>invocations := invocations w + 1\<rparr>) = (r1, w1)"
    by (cases "t args (w\<lparr>invocations := invocations w + 1\<rparr>)")
  from modifiesD [OF assms r1]
  have m: "next_cell w1 = next_cell w" "\<forall>k. k \<notin> A \<longrightarrow> cells w1 k = cells w k" by simp_all
  show "next_cell w' = next_cell w \<and> (\<forall>k. k \<notin> insert n A \<longrightarrow> cells w' k = cells w k)"
  proof (cases "cells w n")
    case None
    with run r1 m show ?thesis
      by (cases r1) (auto simp: memoize_def Let_def)
  next
    case (Some p)
    obtain prev v where p: "p = (prev, v)" by (cases p)
    show ?thesis
    proof (cases "changed args prev")
      case True
      with run r1 m Some p show ?thesis
        by (cases r1) (auto simp: memoize_def Let_def)
    next
      case False
      with run Some p show ?thesis by (auto simp: memoize_def Let_def)
    qed
  qed
qed

lemma memoizedState1_modifies:
  assumes f1: "modifies A (f1 s)" and pr: "\<And>args. modifies A (proj args)"
  shows "modifies (insert ms (insert mp A)) (memoizedState mp ms [f1] proj s)"
  unfolding memoizedState_def
proof (rule memoize_modifies, rule modifiesI)
  fix w r w'
  assume run: "(case map_selectors [f1] (arg [s] 0) w of
                   (Inl e, w1) \<Rightarrow> (Inl e, w1)
                 | (Inr args, w1) \<Rightarrow> memoize mp proj args w1) = (r, w')"
  obtain r1 w1 where r1: "f1 s w = (r1, w1)" by (cases "f1 s w")
  from modifiesD [OF f1 r1]
  have m1: "next_cell w1 = next_cell w" "\<forall>k. k \<notin> A \<longrightarrow> cells w1 k = cells w k" by simp_all
  show "next_cell w' = next_cell w \<and> (\<forall>n. n \<notin> insert mp A \<longrightarrow> cells w' n = cells w n)"
  proof (cases r1)
    case (Inl e)
    with run r1 m1 show ?thesis by auto
  next
    case (Inr a)
    with run r1 have "memoize mp proj [a] w1 = (r, w')" by simp
    from modifiesD [OF memoize_modifies [OF pr] this] m1 show ?thesis by auto
  qed
qed

lemma memoizedState2_modifies:
  assumes f1: "modifies A (f1 s)" and f2: "modifies A (f2 s)" and pr: "\<And>args. modifies A (proj args)"
  shows "modifies (insert ms (insert mp A)) (memoizedState mp ms [f1, f2] proj s)"
  unfolding memoizedState_def
proof (rule memoize_modifies, rule modifiesI)
  fix w r w'
  assume run: "(case map_selectors [f1, f2] (arg [s] 0) w of
                   (Inl e, w1) \<Rightarrow> (Inl e, w1)
                 | (Inr args, w1) \<Rightarrow> memoize mp proj args w1) = (r, w')"
  obtain r1 w1 where r1: "f1 s w = (r1, w1)" by (cases "f1 s w")
  from modifiesD [OF f1 r1]
  have m1: "next_cell w1 = next_cell w" "\<forall>k. k \<notin> A \<longrightarrow> cells w1 k = cells w k" by simp_all
  show "next_cell w' = next_cell w \<and> (\<forall>n. n \<notin> insert mp A \<longrightarrow> cells w' n = cells w n)"
  proof (cases r1)
    case (Inl e)
    with run r1 m1 show ?thesis by auto
  next
    case (Inr a)
    obtain r2 w2 where r2: "f2 s w1 = (r2, w2)" by (cases "f2 s w1")
    from modifiesD [OF f2 r2]
    have m2: "next_cell w2 = next_cell w1" "\<forall>k. k \<notin> A \<longrightarrow> cells w2 k = cells w1 k" by simp_all
    show ?thesis
    proof (cases r2)
      case (Inl e)
      with run r1 r2 \<open>r1 = Inr a\<close> m1 m2 show ?thesis by auto
    next
      case (Inr b)
      with run r1 r2 \<open>r1 = Inr a\<close> have "memoize mp proj [a, b] w2 = (r, w')" by simp
      from modifiesD [OF memoize_modifies [OF pr] this] m1 m2 show ?thesis by auto
    qed
  qed
qed

subsection \<open>The collection accessor\<close>

lemma featureSelector_sound:
  assumes mp: "\<And>prev r. spec mp prev r \<longleftrightarrow> (\<exists>x. prev = [x] \<and> r = x)"
    and ms: "\<And>prev r. spec ms prev r \<longleftrightarrow> (\<exists>s. prev = [s] \<and> selectsCache cacheName s r)"
  shows "sound spec
           (memoizedState mp ms [\<lambda>state w. (property state cacheName, w)] (\<lambda>args w. (Inr (arg args 0), w)) s)
           (answers (selectsCache cacheName s))"
proof (rule memoizedState1_sound
    [where ?Q1.0 = "\<lambda>r. r = property s cacheName" and P = "\<lambda>a r. r = Inr a"])
  show "sound spec (\<lambda>w. (property s cacheName, w)) (\<lambda>r. r = property s cacheName)"
    by (rule soundI) simp
  show "sound spec (\<lambda>w. (Inr (arg [a] 0), w)) (\<lambda>r. r = Inr a)" for a :: "'a val"
    by (rule soundI) simp
  show "(Inr v = Inr a) \<longleftrightarrow> spec mp [a] v" for a v :: "'a val"
    by (auto simp: mp)
  show "length prev = 1" if "spec mp prev r" for prev r
    using that by (auto simp: mp)
  show "answers (selectsCache cacheName s) (Inr v) \<longleftrightarrow> spec ms [s] v" for v
    by (simp add: ms)
  show "length prev = 1" if "spec ms prev r" for prev r
    using that by (auto simp: ms)
  show "answers (selectsCache cacheName s) r" if "Inr a = property s cacheName" "r = Inr a" for a r
  proof -
    from that(1) have "property s cacheName = Inr a" by simp
    then show ?thesis by (simp add: that(2) selectsCache_def)
  qed
  show "answers (selectsCache cacheName s) (Inl e)" if "Inl e = property s cacheName" for e
    using that by (auto simp: selectsCache_def dest: sym)
qed

lemma getCollection_sound:
  "sound spec (getCollection creator name [cache]) (answers (getsCollection creator name cache))"
proof (rule soundI)
  fix w r w'
  assume coh: "coherent spec w" and run: "getCollection creator name [cache] w = (r, w')"
  let ?cache = "if cache = Undefined then VObject (next_addr w) [] else cache"
  have p: "property (if cache = Undefined then VObject 0 [] else cache) (name_key name)
      = property ?cache (name_key name)"
    by simp
  from run have run':
    "(case property ?cache (name_key name) of
        Inl e \<Rightarrow> (Inl e, w)
      | Inr v \<Rightarrow>
          if truthy v then (Inr v, w)
          else (let (c, a) = creator name (next_addr w)
                in (Inr c, w\<lparr>next_addr := a, creator_calls := creator_calls w + 1\<rparr>))) = (r, w')"
    by (simp add: getCollection_def Let_def cong: if_cong)
  show "coherent spec w' \<and> answers (getsCollection creator name cache) r"
  proof (cases "property ?cache (name_key name)")
    case (Inl e)
    with run' have "r = Inl e" "w' = w" by simp_all
    with coh Inl show ?thesis
      unfolding getsCollection_def p by simp
  next
    case (Inr v)
    show ?thesis
    proof (cases "truthy v")
      case True
      with run' Inr have "r = Inr v" "w' = w" by simp_all
      with coh Inr True show ?thesis
        unfolding getsCollection_def p by simp
    next
      case False
      obtain c n where c: "creator name (next_addr w) = (c, n)"
        by (cases "creator name (next_addr w)")
      with False run' Inr have "r = Inr (fst (creator name (next_addr w)))"
        and "w' = w\<lparr>next_addr := n, creator_calls := creator_calls w + 1\<rparr>"
        by simp_all
      with False Inr coh show ?thesis
        unfolding getsCollection_def p by auto
    qed
  qed
qed

lemma collectionSelector_sound:
  assumes sec: "\<And>s. sound spec (sec s) (answers (selectsCache cacheName s))"
    and mp: "\<And>prev r. spec mp prev r \<longleftrightarrow> (\<exists>cache. prev = [cache] \<and> getsCollection creator name cache r)"
    and ms: "\<And>prev r. spec ms prev r \<longleftrightarrow> (\<exists>s. prev = [s] \<and> selectsCollection cacheName creator name s r)"
  shows "sound spec (memoizedState mp ms [sec] (getCollection creator name) s)
           (answers (selectsCollection cacheName creator name s))"
proof (rule memoizedState1_sound
    [where ?Q1.0 = "answers (selectsCache cacheName s)"
       and P = "\<lambda>cache. answers (getsCollection creator name cache)"])
  show "sound spec (sec s) (answers (selectsCache cacheName s))"
    by (rule sec)
  show "sound spec (getCollection creator name [a]) (answers (getsCollection creator name a))" for a
    by (rule getCollection_sound)
  show "answers (getsCollection creator name a) (Inr v) \<longleftrightarrow> spec mp [a] v" for a v
    by (simp add: mp)
  show "length prev = 1" if "spec mp prev r" for prev r
    using that by (auto simp: mp)
  show "answers (selectsCollection cacheName creator name s) (Inr v) \<longleftrightarrow> spec ms [s] v" for v
    by (simp add: ms)
  show "length prev = 1" if "spec ms prev r" for prev r
    using that by (auto simp: ms)
  show "answers (selectsCollection cacheName creator name s) r"
    if "answers (selectsCache cacheName s) (Inr a)" "answers (getsCollection creator name a) r" for a r
    using that by (cases r) (auto simp: selectsCollection_def selectsCache_def)
  show "answers (selectsCollection cacheName creator name s) (Inl e)"
    if "answers (selectsCache cacheName s) (Inl e)" for e
    using that by (auto simp: selectsCollection_def selectsCache_def)
qed

lemma lowerSpec_cells:
  "lowerSpec cacheName creator name fn f f prev r \<longleftrightarrow> (\<exists>x. prev = [x] \<and> r = x)"
  "lowerSpec cacheName creator name fn f (f + 1) prev r \<longleftrightarrow> (\<exists>s. prev = [s] \<and> selectsCache cacheName s r)"
  "lowerSpec cacheName creator name fn f (f + 2) prev r
     \<longleftrightarrow> (\<exists>cache. prev = [cache] \<and> getsCollection creator name cache r)"
  "lowerSpec cacheName creator name fn f (f + 3) prev r
     \<longleftrightarrow> (\<exists>s. prev = [s] \<and> selectsCollection cacheName creator name s r)"
  by (simp_all add: lowerSpec_def)

lemma lowerSpec_member:
  "f + 4 \<le> n \<Longrightarrow> lowerSpec cacheName creator name fn f n = memberSpec fn (f + 4) n"
  by (intro ext) (simp add: lowerSpec_def)

lemma lowerSpec_initial:
  assumes "unused w"
  shows "coherent (lowerSpec cacheName creator name fn (next_cell w)) w"
  unfolding coherent_def
proof (intro allI impI)
  fix n prev r
  assume c: "cells w n = Some (prev, r)"
  with assms have "n < next_cell w"
    by (auto simp: unused_def intro: ccontr)
  then show "lowerSpec cacheName creator name fn (next_cell w) n prev r"
    by (simp add: lowerSpec_def memberSpec_def split: option.splits)
qed

lemma new_EntitySelectorsFactory_eq:
  "new_EntitySelectorsFactory cacheName creator w =
     (\<lparr>selectEntityCache =
         memoizedState (next_cell w) (next_cell w + 1)
           [\<lambda>state w. (property state cacheName, w)] (\<lambda>args w. (Inr (arg args 0), w)),
       entityCollectionCreator = creator\<rparr>,
      w\<lparr>next_cell := next_cell w + 2\<rparr>)"
  by (simp add: new_EntitySelectorsFactory_def createFeatureSelector_def createSelector_def Let_def)

lemma createCollectionSelector_eq:
  "createCollectionSelector this name w =
     (memoizedState (next_cell w) (next_cell w + 1) [selectEntityCache this]
        (getCollection (entityCollectionCreator this) name),
      w\<lparr>next_cell := next_cell w + 2\<rparr>)"
  by (simp add: createCollectionSelector_def createSelector_def Let_def)

lemma is_object_truthy: "is_object v \<Longrightarrow> truthy v"
  by (cases v) simp_all

lemma inherited_plain: "k \<notin> set Object_prototype \<Longrightarrow> inherited k = Undefined"
  by (simp add: inherited_def)

lemma selectsCollection_stored_Some:
  assumes "is_state cacheName s" and "storedCollection cacheName name s = Some v"
  shows "selectsCollection cacheName creator name s c \<longleftrightarrow> c = v"
proof -
  from assms(1) obtain a ps where s: "s = VObject a ps"
    by (auto simp: is_state_def split: val.split_asm)
  from assms(2) obtain t cs where cache: "map_of ps cacheName = Some (VObject t cs)"
    and v: "map_of cs (name_key name) = Some v"
    by (auto simp: storedCollection_def s split: option.split_asm val.split_asm)
  from assms(1) cache have objs: "list_all (\<lambda>p. is_object (snd p)) cs"
    by (simp add: is_state_def s)
  from v have "(name_key name, v) \<in> set cs" by (rule map_of_SomeD)
  with objs have "is_object v" by (auto simp: list_all_iff)
  then have "truthy v" by (rule is_object_truthy)
  with cache v show ?thesis
    by (simp add: s selectsCollection_def getsCollection_def)
qed

lemma selectsCollection_stored:
  assumes "is_state cacheName s"
    and "cacheName \<notin> set Object_prototype" and "name_key name \<notin> set Object_prototype"
  shows "selectsCollection cacheName creator name s c \<longleftrightarrow>
     (case storedCollection cacheName name s of
        Some v \<Rightarrow> c = v
      | None \<Rightarrow> \<exists>n. c = fst (creator name n))"
proof (cases "storedCollection cacheName name s")
  case (Some v)
  from selectsCollection_stored_Some [OF assms(1) Some] Some show ?thesis by simp
next
  case None
  note i = inherited_plain [OF assms(2)] inherited_plain [OF assms(3)]
  from assms(1) obtain a ps where s: "s = VObject a ps"
    by (auto simp: is_state_def split: val.split_asm)
  show ?thesis
  proof (cases "map_of ps cacheName")
    case None
    then show ?thesis
      by (simp add: s selectsCollection_def getsCollection_def storedCollection_def i)
  next
    case (Some cache)
    show ?thesis
    proof (cases "cache = Undefined")
      case True
      with Some show ?thesis
        by (simp add: s selectsCollection_def getsCollection_def storedCollection_def i)
    next
      case False
      with assms(1) Some obtain t cs where cache: "cache = VObject t cs"
        by (auto simp: is_state_def s split: val.split_asm)
      from None Some cache have "map_of cs (name_key name) = None"
        by (simp add: storedCollection_def s)
      with Some cache show ?thesis
        by (simp add: s selectsCollection_def getsCollection_def storedCollection_def i)
    qed
  qed
qed

lemma getCollection_modifies: "modifies {} (getCollection creator name args)"
proof (rule modifiesI)
  fix w r w'
  assume "getCollection creator name args w = (r, w')"
  then show "next_cell w' = next_cell w \<and> (\<forall>n. n \<notin> {} \<longrightarrow> cells w' n = cells w n)"
    by (auto simp: getCollection_def Let_def split: sum.splits if_splits prod.splits)
qed

lemma featureSelector_modifies:
  "modifies {mp, ms}
     (memoizedState mp ms [\<lambda>state w. (property state cacheName, w)] (\<lambda>args w. (Inr (arg args 0), w)) s)"
proof -
  have "modifies (insert ms (insert mp {}))
     (memoizedState mp ms [\<lambda>state w. (property state cacheName, w)] (\<lambda>args w. (Inr (arg args 0), w)) s)"
    by (rule memoizedState1_modifies) (rule modifies_pure)+
  then show ?thesis by (rule modifies_mono) auto
qed

lemma collectionSelector_modifies:
  assumes "\<And>s. modifies A (sec s)"
  shows "modifies (insert ms (insert mp A)) (memoizedState mp ms [sec] (getCollection creator name) s)"
  by (rule memoizedState1_modifies [OF assms]) (rule modifies_mono [OF getCollection_modifies], simp)

subsection \<open>Totality of the collection accessor\<close>

text \<open>
  Let the factory be made in a world whose free cells are unused, the accessor of an
  entity name (which may be missing) right after it, and let \<open>w\<close> be any world that
  calls of the accessor and of the selector of the entity cache lead to. Let neither the
  name of the cache nor the entity name be the name of a member of \<^verbatim>\<open>Object.prototype\<close>.
  On every state that is typed as a state the accessor returns a value, never an
  exception: the stored collection when the cache of the state has one for the name, and
  otherwise a collection that the creator makes for the name. The call allocates no cell
  and writes nothing but the four memoization cells of the accessor and of the cache
  selector.
\<close>

lemma collection_accessor_total:
  assumes fac: "new_EntitySelectorsFactory cacheName creator w0 = (this, w1)"
    and fresh: "unused w0"
    and acc: "createCollectionSelector this name w1 = (sc, w2)"
    and reach: "reachable {selectEntityCache this, sc} w2 w"
    and st: "is_state cacheName s"
    and plain: "cacheName \<notin> set Object_prototype" "name_key name \<notin> set Object_prototype"
  shows "\<exists>c w'. sc s w = (Inr c, w')
     \<and> (case storedCollection cacheName name s of
          Some v \<Rightarrow> c = v
        | None \<Rightarrow> \<exists>n. c = fst (creator name n))
     \<and> next_cell w' = next_cell w
     \<and> (\<forall>n. n \<notin> {next_cell w0, next_cell w0 + 1, next_cell w0 + 2, next_cell w0 + 3}
            \<longrightarrow> cells w' n = cells w n)"
proof -
  let ?f = "next_cell w0"
  let ?spec = "lowerSpec cacheName creator name None ?f"
  let ?sec = "memoizedState ?f (?f + 1)
      [\<lambda>state w. (property state cacheName, w)] (\<lambda>args w. (Inr (arg args 0), w))"
  let ?sc = "memoizedState (?f + 2) (?f + 3) [?sec] (getCollection creator name)"
  from fac have fac_eq: "selectEntityCache this = ?sec" "entityCollectionCreator this = creator"
    and w1: "w1 = w0\<lparr>next_cell := ?f + 2\<rparr>"
    by (auto simp: new_EntitySelectorsFactory_eq)
  from acc have sc: "sc = ?sc" and w2: "w2 = w0\<lparr>next_cell := ?f + 4\<rparr>"
    by (auto simp: createCollectionSelector_eq fac_eq w1 eval_nat_numeral)
  have sec_sound: "sound ?spec (?sec x) (answers (selectsCache cacheName x))" for x
    by (rule featureSelector_sound) (simp_all only: lowerSpec_cells)
  have sc_sound: "sound ?spec (?sc x) (answers (selectsCollection cacheName creator name x))" for x
    by (rule collectionSelector_sound [OF sec_sound]) (simp_all only: lowerSpec_cells)
  have coh: "coherent ?spec w"
  proof (rule reachable_coherent [OF reach])
    from lowerSpec_initial [OF fresh] show "coherent ?spec w2"
      by (simp add: w2 coherent_def)
    show "sound ?spec (f x) (\<lambda>r. True)" if "f \<in> {selectEntityCache this, sc}" for f x
    proof -
      from that have "f = ?sec \<or> f = ?sc" by (simp add: fac_eq sc)
      then show ?thesis
      proof
        assume "f = ?sec"
        then show ?thesis by (simp only: sound_True [OF sec_sound])
      next
        assume "f = ?sc"
        then show ?thesis by (simp only: sound_True [OF sc_sound])
      qed
    qed
  qed
  obtain r w' where run: "sc s w = (r, w')" by (cases "sc s w")
  then have run': "?sc s w = (r, w')" by (simp only: sc)
  from soundD [OF sc_sound coh run']
  have a: "answers (selectsCollection cacheName creator name s) r" by simp
  have "\<exists>c0. selectsCollection cacheName creator name s c0"
    unfolding selectsCollection_stored [OF st plain]
    by (cases "storedCollection cacheName name s") auto
  then obtain c0 where "selectsCollection cacheName creator name s c0" ..
  from answers_total [OF a this]
  obtain c where r: "r = Inr c" and c: "selectsCollection cacheName creator name s c"
    by blast
  from c have stored: "case storedCollection cacheName name s of
          Some v \<Rightarrow> c = v
        | None \<Rightarrow> \<exists>n. c = fst (creator name n)"
    by (simp only: selectsCollection_stored [OF st plain])
  have "modifies (insert (?f + 3) (insert (?f + 2) {?f, ?f + 1})) (?sc s)"
    by (rule collectionSelector_modifies) (rule featureSelector_modifies)
  from modifiesD [OF this run']
  have nc: "next_cell w' = next_cell w"
    and fr: "\<forall>n. n \<notin> insert (?f + 3) (insert (?f + 2) {?f, ?f + 1}) \<longrightarrow> cells w' n = cells w n"
    by blast+
  from fr have fr': "\<forall>n. n \<notin> {?f, ?f + 1, ?f + 2, ?f + 3} \<longrightarrow> cells w' n = cells w n"
    by simp
  show ?thesis
    by (intro exI [of _ c] exI [of _ w'] conjI) (use run r stored nc fr' in simp_all)
qed

text \<open>
  C2. \<^verbatim>\<open>cache[entityName]\<close> follows the prototype chain of the cache. For the entity name
  \<open>constructor\<close> and a typed state whose cache holds no collection of that name, the
  read returns the built-in function that every object inherits as \<open>constructor\<close>. It is
  truthy, so the accessor returns it, and the Collection Creator is not called: the result
  is neither a stored collection nor the collection synthesized by the creator.
\<close>

theorem inherited_name_is_no_collection:
  "is_state ''entityCache'' villain_state
   \<and> storedCollection ''entityCache'' (Some ''constructor'') villain_state = None
   \<and> property (VObject 4 [(''Villain'', VObject 5 [])]) ''constructor''
        = Inr (VNative ''constructor'' :: hero val)
   \<and> fst (constructor_accessor villain_state constructor_world) = Inr (VNative ''constructor'')
   \<and> creator_calls constructor_world = 0
   \<and> creator_calls (snd (constructor_accessor villain_state constructor_world)) = 0"
proof -
  have s: "is_state ''entityCache'' villain_state"
    by (simp add: is_state_def villain_state_def)
  have st: "storedCollection ''entityCache'' (Some ''constructor'') villain_state = None"
    by (simp add: storedCollection_def villain_state_def)
  have p: "property (VObject 4 [(''Villain'', VObject 5 [])]) ''constructor''
      = Inr (VNative ''constructor'' :: hero val)"
    by (simp add: inherited_def Object_prototype_def)
  have a: "constructor_accessor =
     memoizedState 2 3 [selectEntityCache example_factory]
       (getCollection (defaultCreator []) (Some ''constructor''))"
    by (simp add: constructor_accessor_def createCollectionSelector_def createSelector_def Let_def
        factory_world_eq example_factory_eq example_world_def eval_nat_numeral)
  have w: "constructor_world = example_world\<lparr>next_cell := 4\<rparr>"
    by (simp add: constructor_world_def createCollectionSelector_def createSelector_def Let_def
        factory_world_eq example_world_def)
  have r: "constructor_accessor villain_state constructor_world =
     (Inr (VNative ''constructor''),
      constructor_world\<lparr>cells := ((cells constructor_world)
          (0 \<mapsto> ([VObject 4 [(''Villain'', VObject 5 [])]], VObject 4 [(''Villain'', VObject 5 [])]),
           1 \<mapsto> ([villain_state], VObject 4 [(''Villain'', VObject 5 [])]),
           2 \<mapsto> ([VObject 4 [(''Villain'', VObject 5 [])]], VNative ''constructor''),
           3 \<mapsto> ([villain_state], VNative ''constructor''))),
        invocations := 4\<rparr>)"
    by (simp add: a w example_factory_eq memoizedState_def memoize_def example_world_def
        villain_state_def arg_def getCollection_def fun_upd_twist inherited_def
        Object_prototype_def)
  from s st p show ?thesis
    by (simp add: r) (simp add: w example_world_def)
qed

subsection \<open>The root selectors: invariant\<close>

lemma memoize_cases:
  assumes "memoize n t args w = (r, w')"
  obtains (hit) prev v where "cells w n = Some (prev, v)" "\<not> changed args prev" "r = Inr v" "w' = w"
  | (raise) e where "t args (w\<lparr>invocations := invocations w + 1\<rparr>) = (Inl e, w')" "r = Inl e"
  | (store) v w1 where "t args (w\<lparr>invocations := invocations w + 1\<rparr>) = (Inr v, w1)" "r = Inr v"
      "w' = w1\<lparr>cells := (cells w1)(n \<mapsto> (args, v))\<rparr>"
proof -
  obtain r1 w1 where r1: "t args (w\<lparr>invocations := invocations w + 1\<rparr>) = (r1, w1)"
    by (cases "t args (w\<lparr>invocations := invocations w + 1\<rparr>)")
  have compute: thesis
    if "(case t args (w\<lparr>invocations := invocations w + 1\<rparr>) of
              (Inl e, w1) \<Rightarrow> (Inl e, w1)
            | (Inr v, w1) \<Rightarrow> (Inr v, w1\<lparr>cells := (cells w1)(n \<mapsto> (args, v))\<rparr>)) = (r, w')"
  proof (cases r1)
    case (Inl e)
    with that r1 show ?thesis by (auto intro: raise)
  next
    case (Inr v)
    with that r1 show ?thesis by (auto intro: store)
  qed
  show thesis
  proof (cases "cells w n")
    case None
    with assms compute show ?thesis by (simp add: memoize_def Let_def)
  next
    case (Some p)
    obtain prev v where p: "p = (prev, v)" by (cases p)
    show ?thesis
    proof (cases "changed args prev")
      case True
      with assms Some p compute show ?thesis by (simp add: memoize_def Let_def)
    next
      case False
      with assms Some p show ?thesis by (auto simp: memoize_def Let_def intro: hit)
    qed
  qed
qed

lemma rootCell_ge: "n \<le> rootCell S n k"
proof (induction S arbitrary: n)
  case Nil
  show ?case by simp
next
  case (Cons p S)
  obtain k' m where "p = (k', m)" by (cases p)
  with Cons [of "n + 2"] show ?case by (auto intro: le_trans [of n "n + 2"])
qed

lemma rootCell_even: "even (rootCell S n k - n)"
proof (induction S arbitrary: n)
  case Nil
  show ?case by simp
next
  case (Cons p S)
  obtain k' m where p: "p = (k', m)" by (cases p)
  show ?case
  proof (cases "k' = k")
    case True
    with p show ?thesis by simp
  next
    case False
    from rootCell_ge [of "n + 2" S k] have "rootCell S (n + 2) k - n = (rootCell S (n + 2) k - (n + 2)) + 2"
      by simp
    with Cons [of "n + 2"] False p show ?thesis by simp
  qed
qed

lemma rootCell_inj:
  "k \<in> fst ` set S \<Longrightarrow> k' \<in> fst ` set S \<Longrightarrow> rootCell S n k = rootCell S n k' \<Longrightarrow> k = k'"
proof (induction S arbitrary: n)
  case Nil
  then show ?case by simp
next
  case (Cons p S)
  obtain k0 m where p: "p = (k0, m)" by (cases p)
  show ?case
  proof (cases "k = k0")
    case True
    show ?thesis
    proof (cases "k' = k0")
      case True
      with \<open>k = k0\<close> show ?thesis by simp
    next
      case False
      with True Cons.prems(3) p rootCell_ge [of "n + 2" S k'] show ?thesis by simp
    qed
  next
    case False
    show ?thesis
    proof (cases "k' = k0")
      case True
      with False Cons.prems(3) p rootCell_ge [of "n + 2" S k] show ?thesis by simp
    next
      case k': False
      with False Cons.prems p have "k \<in> fst ` set S" "k' \<in> fst ` set S"
        "rootCell S (n + 2) k = rootCell S (n + 2) k'"
        by auto
      then show ?thesis by (rule Cons.IH)
    qed
  qed
qed

lemma rootCell_apart:
  assumes "k \<in> fst ` set S" and "k' \<in> fst ` set S" and "k \<noteq> k'"
  shows "rootCell S n k' \<noteq> rootCell S n k" and "rootCell S n k' \<noteq> rootCell S n k + 1"
    and "rootCell S n k' + 1 \<noteq> rootCell S n k"
proof -
  from assms rootCell_inj [of k' S k n] show "rootCell S n k' \<noteq> rootCell S n k" by auto
  have e: "even (rootCell S n k - n)" "even (rootCell S n k' - n)"
    by (rule rootCell_even)+
  have g: "n \<le> rootCell S n k" "n \<le> rootCell S n k'"
    by (rule rootCell_ge)+
  show "rootCell S n k' \<noteq> rootCell S n k + 1"
  proof
    assume "rootCell S n k' = rootCell S n k + 1"
    with g have "rootCell S n k' - n = Suc (rootCell S n k - n)" by simp
    with e show False by simp
  qed
  show "rootCell S n k' + 1 \<noteq> rootCell S n k"
  proof
    assume "rootCell S n k' + 1 = rootCell S n k"
    with g have "rootCell S n k - n = Suc (rootCell S n k' - n)" by simp
    with e show False by simp
  qed
qed

lemma rootsInv_invocations [simp]:
  "rootsInv L A S r0 (w\<lparr>invocations := i\<rparr>) = rootsInv L A S r0 w"
  by (simp add: rootsInv_def rootInv_def)

text \<open>A computation of the lower layers keeps the invariant of the root selectors.\<close>

lemma lower_preserves:
  assumes inv: "rootsInv L A S r0 w"
    and snd: "sound L g Q" and md: "modifies C g" and low: "\<And>n. n \<in> C \<Longrightarrow> n < r0"
    and run: "g w = (r, w1)"
  shows "rootsInv L A S r0 w1 \<and> Q r"
proof -
  from inv have coh: "coherent L w" by (simp add: rootsInv_def)
  from soundD [OF snd coh run] have c1: "coherent L w1" and q: "Q r" by simp_all
  from modifiesD [OF md run] have same: "\<And>n. n \<notin> C \<Longrightarrow> cells w1 n = cells w n" by simp
  have "rootInv L A (rootCell S r0 k) m w1" if km: "map_of S k = Some m" for k m
  proof -
    from inv km have ri: "rootInv L A (rootCell S r0 k) m w" by (simp add: rootsInv_def)
    have "rootCell S r0 k \<notin> C"
    proof
      assume "rootCell S r0 k \<in> C"
      from low [OF this] rootCell_ge [of r0 S k] show False by simp
    qed
    moreover have "rootCell S r0 k + 1 \<notin> C"
    proof
      assume "rootCell S r0 k + 1 \<in> C"
      from low [OF this] rootCell_ge [of r0 S k] show False by simp
    qed
    ultimately have "rootCell S r0 k \<notin> C" "rootCell S r0 k + 1 \<notin> C" .
    then have "cells w1 (rootCell S r0 k) = cells w (rootCell S r0 k)"
      and "cells w1 (rootCell S r0 k + 1) = cells w (rootCell S r0 k + 1)"
      by (simp_all add: same)
    with ri show ?thesis by (simp add: rootInv_def)
  qed
  with c1 q show ?thesis by (simp add: rootsInv_def)
qed

lemma memoize_hit:
  "cells w n = Some (args, v) \<Longrightarrow> memoize n t args w = (Inr v, w)"
  by (simp add: memoize_def Let_def)

lemma map_of_fst_image: "map_of S k = Some m \<Longrightarrow> k \<in> fst ` set S"
  by (metis domI dom_map_of_conv_image_fst)

lemma store_state:
  assumes inv: "rootsInv L A S r0 w" and km: "map_of S k = Some m"
    and Ltrue: "\<And>n prev r. r0 \<le> n \<Longrightarrow> L n prev r"
    and mpc: "cells w (rootCell S r0 k) = Some ([c], v)" and a: "A s c"
  shows "rootsInv L A S r0 (w\<lparr>cells := (cells w)(rootCell S r0 k + 1 \<mapsto> ([s], v))\<rparr>)"
proof -
  let ?mp = "rootCell S r0 k"
  let ?w = "w\<lparr>cells := (cells w)(?mp + 1 \<mapsto> ([s], v))\<rparr>"
  from inv have coh: "coherent L w" by (simp add: rootsInv_def)
  have "L (?mp + 1) [s] v"
    by (rule Ltrue) (use rootCell_ge [of r0 S k] in simp)
  from coherent_store [OF coh this] have c: "coherent L ?w" .
  have "rootInv L A (rootCell S r0 k') m' ?w" if km': "map_of S k' = Some m'" for k' m'
  proof (cases "k' = k")
    case True
    from inv km have "rootInv L A ?mp m w" by (simp add: rootsInv_def)
    with True km km' mpc a show ?thesis by (auto simp: rootInv_def)
  next
    case False
    from inv km' have ri: "rootInv L A (rootCell S r0 k') m' w" by (simp add: rootsInv_def)
    from rootCell_apart [OF map_of_fst_image [OF km] map_of_fst_image [OF km'], of r0] False
    have "rootCell S r0 k' \<noteq> ?mp + 1" "rootCell S r0 k' + 1 \<noteq> ?mp + 1" by auto
    with ri show ?thesis by (simp add: rootInv_def)
  qed
  with c show ?thesis by (simp add: rootsInv_def)
qed

lemma store_both:
  assumes inv: "rootsInv L A S r0 w" and km: "map_of S k = Some m"
    and Ltrue: "\<And>n prev r. r0 \<le> n \<Longrightarrow> L n prev r"
    and o: "outcome L m c (Inr v)" and a: "A s c"
  shows "rootsInv L A S r0
           (w\<lparr>cells := (cells w)(rootCell S r0 k \<mapsto> ([c], v), rootCell S r0 k + 1 \<mapsto> ([s], v))\<rparr>)"
proof -
  let ?mp = "rootCell S r0 k"
  let ?w = "w\<lparr>cells := (cells w)(?mp \<mapsto> ([c], v), ?mp + 1 \<mapsto> ([s], v))\<rparr>"
  from inv have coh: "coherent L w" by (simp add: rootsInv_def)
  have l: "L ?mp [c] v" "L (?mp + 1) [s] v"
    by (rule Ltrue, use rootCell_ge [of r0 S k] in simp)+
  have c: "coherent L ?w"
    using coh l unfolding coherent_def by auto
  have "rootInv L A (rootCell S r0 k') m' ?w" if km': "map_of S k' = Some m'" for k' m'
  proof (cases "k' = k")
    case True
    with km km' o a show ?thesis by (auto simp: rootInv_def)
  next
    case False
    from inv km' have ri: "rootInv L A (rootCell S r0 k') m' w" by (simp add: rootsInv_def)
    from rootCell_apart [OF map_of_fst_image [OF km] map_of_fst_image [OF km'], of r0] False
    have "rootCell S r0 k' \<noteq> ?mp + 1" "rootCell S r0 k' + 1 \<noteq> ?mp + 1"
      "rootCell S r0 k' \<noteq> ?mp" "rootCell S r0 k' + 1 \<noteq> ?mp" by auto
    with ri show ?thesis by (simp add: rootInv_def)
  qed
  with c show ?thesis by (simp add: rootsInv_def)
qed

lemma memberProjector_apply [simp]: "memberProjector m [c] = m c"
  by (simp add: memberProjector_def)

lemma root_state_function:
  "(case map_selectors [sc] (arg [s] 0) w of
      (Inl e, w1) \<Rightarrow> (Inl e, w1)
    | (Inr args, w1) \<Rightarrow> memoize mp proj args w1)
   = (case sc s w of
        (Inl e, w1) \<Rightarrow> (Inl e, w1)
      | (Inr c, w1) \<Rightarrow> memoize mp proj [c] w1)"
  by (simp split: prod.splits sum.splits)

text \<open>
  A call of a root selector keeps the invariant. Its result is a result of the member
  selector on a collection that the accessor selects in the state, or an exception when
  the accessor selects none; after a value the cell of the projector holds it, with such
  a collection.
\<close>

lemma root_step:
  assumes inv: "rootsInv L A S r0 w" and km: "map_of S k = Some m"
    and Ltrue: "\<And>n prev r. r0 \<le> n \<Longrightarrow> L n prev r"
    and sc_sound: "\<And>s. sound L (sc s) (answers (A s))"
    and sc_mod: "\<And>s. modifies C (sc s)"
    and m_sound: "\<And>c. sound L (m c) (\<lambda>r. True)"
    and m_mod: "\<And>c. modifies C (m c)"
    and low: "\<And>n. n \<in> C \<Longrightarrow> n < r0"
    and run: "memoizedState (rootCell S r0 k) (rootCell S r0 k + 1) [sc] (memberProjector m) s w = (r, w')"
  shows "rootsInv L A S r0 w'
     \<and> ((\<exists>c. A s c \<and> outcome L m c r) \<or> (\<exists>e. r = Inl e \<and> \<not> (\<exists>c. A s c)))
     \<and> (\<forall>v. r = Inr v \<longrightarrow> (\<exists>c. A s c \<and> cells w' (rootCell S r0 k) = Some ([c], v)))"
proof -
  let ?mp = "rootCell S r0 k"
  let ?ms = "rootCell S r0 k + 1"
  let ?w = "w\<lparr>invocations := invocations w + 1\<rparr>"
  let ?T = "\<lambda>args w. case map_selectors [sc] (arg args 0) w of
                 (Inl e, w1) \<Rightarrow> (Inl e, w1)
               | (Inr args, w1) \<Rightarrow> memoize ?mp (memberProjector m) args w1"
  from run have run': "memoize ?ms ?T [s] w = (r, w')"
    by (simp only: memoizedState_def)
  have T: "?T [s] u = (case sc s u of
        (Inl e, w1) \<Rightarrow> (Inl e, w1)
      | (Inr c, w1) \<Rightarrow> memoize ?mp (memberProjector m) [c] w1)" for u
    by (rule root_state_function)
  from inv km have ri: "rootInv L A ?mp m w" by (simp add: rootsInv_def)
  have inv': "rootsInv L A S r0 ?w" using inv by simp
  obtain r1 w1 where r1: "sc s ?w = (r1, w1)" by (cases "sc s ?w")
  from lower_preserves [OF inv' sc_sound sc_mod low r1]
  have inv1: "rootsInv L A S r0 w1" and a1: "answers (A s) r1" by simp_all
  from inv1 km have ri1: "rootInv L A ?mp m w1" by (simp add: rootsInv_def)
  let ?w1 = "w1\<lparr>invocations := invocations w1 + 1\<rparr>"
  have inv1': "rootsInv L A S r0 ?w1" using inv1 by simp
  then have coh1: "coherent L ?w1" by (simp add: rootsInv_def)
  from run' show ?thesis
  proof (cases rule: memoize_cases)
    case (hit prev v)
    from ri hit(1) obtain s' c where prev: "prev = [s']" and a: "A s' c"
      and mpc: "cells w ?mp = Some ([c], v)"
      by (auto simp: rootInv_def)
    from hit(2) prev have "s' = s" by simp
    moreover from ri mpc have "outcome L m c (Inr v)" by (auto simp: rootInv_def)
    ultimately show ?thesis using hit a mpc inv by auto
  next
    case (raise e)
    show ?thesis
    proof (cases r1)
      case (Inl e1)
      with raise r1 have "w' = w1" "e1 = e" by (simp_all add: T)
      with inv1 a1 Inl raise show ?thesis by auto
    next
      case (Inr c)
      with a1 have a: "A s c" by simp
      from raise r1 Inr have "memoize ?mp (memberProjector m) [c] w1 = (Inl e, w')"
        by (simp add: T)
      then have mc: "m c ?w1 = (Inl e, w')"
        by (cases rule: memoize_cases) simp_all
      from lower_preserves [OF inv1' m_sound m_mod low mc]
      have "rootsInv L A S r0 w'" by simp
      moreover from mc coh1 have "outcome L m c (Inl e)"
        unfolding outcome_def by blast
      ultimately show ?thesis using a raise by auto
    qed
  next
    case (store v wx)
    show ?thesis
    proof (cases r1)
      case (Inl e1)
      with store r1 show ?thesis by (simp add: T)
    next
      case (Inr c)
      with a1 have a: "A s c" by simp
      from store r1 Inr have "memoize ?mp (memberProjector m) [c] w1 = (Inr v, wx)"
        by (simp add: T)
      then show ?thesis
      proof (cases rule: memoize_cases)
        case (hit prev v')
        from ri1 hit(1) obtain c' where "prev = [c']" and o: "outcome L m c' (Inr v')"
          by (auto simp: rootInv_def)
        with hit have mpc: "cells w1 ?mp = Some ([c], v)" and o': "outcome L m c (Inr v)"
          by auto
        from store_state [OF inv1 km Ltrue mpc a] hit(4) store(3)
        have "rootsInv L A S r0 w'" by simp
        moreover from mpc hit(4) store(3) have "cells w' ?mp = Some ([c], v)" by simp
        ultimately show ?thesis using a o' store(2) by auto
      next
        case (raise e)
        then show ?thesis by simp
      next
        case (store v' w2)
        then have mc: "m c ?w1 = (Inr v, w2)" by simp
        from lower_preserves [OF inv1' m_sound m_mod low mc]
        have inv2: "rootsInv L A S r0 w2" by simp
        from mc coh1 have o: "outcome L m c (Inr v)"
          unfolding outcome_def by blast
        from store \<open>w' = wx\<lparr>cells := (cells wx)(?ms \<mapsto> ([s], v))\<rparr>\<close>
        have w': "w' = w2\<lparr>cells := (cells w2)(?mp \<mapsto> ([c], v), ?ms \<mapsto> ([s], v))\<rparr>"
          by simp
        from store_both [OF inv2 km Ltrue o a] w'
        have "rootsInv L A S r0 w'" by simp
        moreover from w' have "cells w' ?mp = Some ([c], v)" by simp
        ultimately show ?thesis using a o \<open>r = Inr v\<close> by auto
      qed
    qed
  qed
qed

subsection \<open>The root selectors: layout of a build\<close>

lemma create_distinct:
  assumes "create this metadata w = (Inr rs, w')"
  shows "distinct (map fst (rootSelectors rs))"
proof -
  obtain sc w1 where a: "createCollectionSelector this (entityName metadata) w = (sc, w1)"
    by (cases "createCollectionSelector this (entityName metadata) w")
  obtain r w2 where b: "createCollectionSelectors metadata w1 = (r, w2)"
    by (cases "createCollectionSelectors metadata w1")
  show ?thesis
  proof (cases r)
    case (Inl e)
    with assms a b show ?thesis by (simp add: create_def)
  next
    case (Inr S)
    obtain es w3 where c: "entitySelectors sc S [] w2 = (es, w3)"
      by (cases "entitySelectors sc S [] w2")
    from assms a b Inr c have "rootSelectors rs = spread [(''selectCollection'', sc)] es"
      by (auto simp: create_def)
    then show ?thesis by (simp add: spread_distinct)
  qed
qed

lemma create_layout:
  fixes metadata :: "'a EntityMetadata"
  assumes fac: "new_EntitySelectorsFactory cacheName creator w0 = (this, w1)"
    and build: "create this metadata w1 = (Inr rs, w4)"
  obtains S where
    "createCollectionSelectors metadata (w0\<lparr>next_cell := next_cell w0 + 4\<rparr>)
       = (Inr S, w0\<lparr>next_cell := rootBase (filterFn metadata) (next_cell w0)\<rparr>)"
    and "distinct (map fst S)"
    and "cells w4 = cells w0"
    and "selectEntityCache this = cacheSelector cacheName (next_cell w0)"
    and "rootEntityName rs = entityName metadata"
    and "distinct (map fst (rootSelectors rs))"
    and "\<And>name. map_of (rootSelectors rs) name =
          (case map_of S name of
             Some m \<Rightarrow>
               Some (memoizedState (rootCell S (rootBase (filterFn metadata) (next_cell w0)) name)
                       (rootCell S (rootBase (filterFn metadata) (next_cell w0)) name + 1)
                       [collectionSelector cacheName creator (entityName metadata) (next_cell w0)]
                       (memberProjector m))
           | None \<Rightarrow>
               if name = ''selectCollection''
               then Some (collectionSelector cacheName creator (entityName metadata) (next_cell w0))
               else None)"
proof -
  let ?f = "next_cell w0"
  from fac have fac_eq: "selectEntityCache this = cacheSelector cacheName ?f"
    "entityCollectionCreator this = creator"
    and w1: "w1 = w0\<lparr>next_cell := ?f + 2\<rparr>"
    by (auto simp: new_EntitySelectorsFactory_eq cacheSelector_def)
  have ne: "list_all nameable (declaredFields metadata)"
    using create_Inl [of metadata this w1] build by auto
  from create_Inr [OF ne, of this w1] build
  obtain sc w2 and S :: "(string \<times> 'a selector) list" and w3 :: "'a world"
    where a: "createCollectionSelector this (entityName metadata) w1 = (sc, w2)"
      and b: "createCollectionSelectors metadata w2 = (Inr S, w3)"
      and w4: "w4 = w3\<lparr>next_cell := next_cell w3 + 2 * length S\<rparr>"
      and n: "rootEntityName rs = entityName metadata"
      and m: "\<And>name. map_of (rootSelectors rs) name =
          (case map_of S name of
             Some m \<Rightarrow>
               Some (memoizedState (rootCell S (next_cell w3) name) (rootCell S (next_cell w3) name + 1)
                       [sc] (memberProjector m))
           | None \<Rightarrow> if name = ''selectCollection'' then Some sc else None)"
    by auto
  from a have sc: "sc = collectionSelector cacheName creator (entityName metadata) ?f"
    and w2: "w2 = w0\<lparr>next_cell := ?f + 4\<rparr>"
    by (auto simp: createCollectionSelector_eq fac_eq w1 collectionSelector_def eval_nat_numeral)
  from createCollectionSelectors_Inr [OF ne, of w2] b
  have "w3 = snd (builtinSelectors (filterFn metadata) w2)" by auto
  then have w3: "w3 = w0\<lparr>next_cell := rootBase (filterFn metadata) ?f\<rparr>"
    by (simp add: builtinSelectors_world w2 rootBase_def)
  have nc3: "next_cell w3 = rootBase (filterFn metadata) ?f"
    by (simp add: w3)
  show thesis
  proof (rule that [of S])
    from b show "createCollectionSelectors metadata (w0\<lparr>next_cell := ?f + 4\<rparr>)
       = (Inr S, w0\<lparr>next_cell := rootBase (filterFn metadata) ?f\<rparr>)"
      by (simp only: w2 w3)
    show "distinct (map fst S)" by (rule createCollectionSelectors_distinct [OF b])
    show "cells w4 = cells w0" by (simp add: w4 w3)
    show "selectEntityCache this = cacheSelector cacheName ?f" by (rule fac_eq)
    show "rootEntityName rs = entityName metadata" by (rule n)
    show "distinct (map fst (rootSelectors rs))" by (rule create_distinct [OF build])
    show "map_of (rootSelectors rs) name =
          (case map_of S name of
             Some m \<Rightarrow>
               Some (memoizedState (rootCell S (rootBase (filterFn metadata) ?f) name)
                       (rootCell S (rootBase (filterFn metadata) ?f) name + 1)
                       [collectionSelector cacheName creator (entityName metadata) ?f]
                       (memberProjector m))
           | None \<Rightarrow>
               if name = ''selectCollection''
               then Some (collectionSelector cacheName creator (entityName metadata) ?f)
               else None)" for name
      unfolding m [of name] nc3 sc by (rule refl)
  qed
qed

subsection \<open>The root selectors: the lower layers\<close>

lemma entitiesProjector_modifies: "modifies {} (entitiesProjector args)"
proof (rule modifiesI)
  fix w r w'
  assume "entitiesProjector args w = (r, w')"
  then show "next_cell w' = next_cell w \<and> (\<forall>n. n \<notin> {} \<longrightarrow> cells w' n = cells w n)"
    by (auto simp: entitiesProjector_def split: val.splits sum.splits)
qed

lemma countProjector_modifies: "modifies {} (countProjector args)"
  by (rule modifiesI) (auto simp: countProjector_def)

lemma filterProjector_modifies: "modifies {} (filterProjector f args)"
  by (rule modifiesI) (auto simp: filterProjector_def Let_def split: prod.splits)

lemma plain_modifies:
  "modifies {} (selectKeys c)" "modifies {} (selectEntityMap c)" "modifies {} (selectFilter c)"
  "modifies {} (selectLoaded c)" "modifies {} (selectLoading c)" "modifies {} (selectOriginalValues c)"
  "modifies {} (extraSelector k c)"
  by (rule modifiesI, simp add: selectKeys_def selectEntityMap_def selectFilter_def
      selectLoaded_def selectLoading_def selectOriginalValues_def extraSelector_def)+

lemma selectEntities_modifies:
  "modifies {n, n + 1} (memoizedState n (n + 1) [selectKeys, selectEntityMap] entitiesProjector c)"
proof -
  have "modifies (insert (n + 1) (insert n {}))
      (memoizedState n (n + 1) [selectKeys, selectEntityMap] entitiesProjector c)"
    by (rule memoizedState2_modifies) (rule plain_modifies entitiesProjector_modifies)+
  then show ?thesis by (rule modifies_mono) auto
qed

lemma selectCount_modifies:
  "modifies {n + 2, n + 3} (memoizedState (n + 2) (n + 3) [selectKeys] countProjector c)"
proof -
  have "modifies (insert (n + 3) (insert (n + 2) {}))
      (memoizedState (n + 2) (n + 3) [selectKeys] countProjector c)"
    by (rule memoizedState1_modifies) (rule plain_modifies countProjector_modifies)+
  then show ?thesis by (rule modifies_mono) auto
qed

lemma selectFilteredEntities_modifies:
  "modifies {n, n + 1, n + 4, n + 5}
     (memoizedState (n + 4) (n + 5)
        [memoizedState n (n + 1) [selectKeys, selectEntityMap] entitiesProjector, selectFilter]
        (filterProjector f) c)"
proof -
  have "modifies (insert (n + 5) (insert (n + 4) {n, n + 1}))
     (memoizedState (n + 4) (n + 5)
        [memoizedState n (n + 1) [selectKeys, selectEntityMap] entitiesProjector, selectFilter]
        (filterProjector f) c)"
  proof (rule memoizedState2_modifies)
    show "modifies {n, n + 1} (memoizedState n (n + 1) [selectKeys, selectEntityMap] entitiesProjector c)"
      by (rule selectEntities_modifies)
    show "modifies {n, n + 1} (selectFilter c)"
      by (rule modifies_mono [OF plain_modifies(3)]) simp
    show "modifies {n, n + 1} (filterProjector f args)" for args
      by (rule modifies_mono [OF filterProjector_modifies]) simp
  qed
  then show ?thesis by (rule modifies_mono) auto
qed

lemma builtin_member_modifies:
  assumes m: "m \<in> snd ` set (fst (builtinSelectors fn w0))"
  shows "modifies {next_cell w0 ..< next_cell w0 + (case fn of None \<Rightarrow> 4 | Some g \<Rightarrow> 6)} (m c)"
proof -
  let ?n = "next_cell w0"
  let ?entities = "memoizedState ?n (?n + 1) [selectKeys, selectEntityMap] entitiesProjector"
  let ?count = "memoizedState (?n + 2) (?n + 3) [selectKeys] countProjector"
  let ?C = "{?n ..< ?n + (case fn of None \<Rightarrow> 4 | Some g \<Rightarrow> 6)}"
  have plain: "modifies ?C (selectKeys c)" "modifies ?C (selectEntityMap c)"
    "modifies ?C (selectFilter c)" "modifies ?C (selectLoaded c)"
    "modifies ?C (selectLoading c)" "modifies ?C (selectOriginalValues c)"
    by (rule modifies_mono [OF plain_modifies(1)] modifies_mono [OF plain_modifies(2)]
        modifies_mono [OF plain_modifies(3)] modifies_mono [OF plain_modifies(4)]
        modifies_mono [OF plain_modifies(5)] modifies_mono [OF plain_modifies(6)], simp)+
  have e: "modifies ?C (?entities c)"
    by (rule modifies_mono [OF selectEntities_modifies]) (auto split: option.splits)
  have n: "modifies ?C (?count c)"
    by (rule modifies_mono [OF selectCount_modifies]) (auto split: option.splits)
  show ?thesis
  proof (cases fn)
    case None
    with m have "m = selectKeys \<or> m = selectEntityMap \<or> m = selectFilter \<or> m = selectLoaded
        \<or> m = selectLoading \<or> m = selectOriginalValues \<or> m = ?entities \<or> m = ?count"
      by (auto simp: builtinSelectors_None)
    with plain e n show ?thesis by blast
  next
    case (Some f)
    let ?filtered = "memoizedState (?n + 4) (?n + 5) [?entities, selectFilter] (filterProjector f)"
    have f: "modifies ?C (?filtered c)"
      by (rule modifies_mono [OF selectFilteredEntities_modifies]) (auto simp: Some)
    from Some m have "m = selectKeys \<or> m = selectEntityMap \<or> m = selectFilter \<or> m = selectLoaded
        \<or> m = selectLoading \<or> m = selectOriginalValues \<or> m = ?entities \<or> m = ?count
        \<or> m = ?filtered"
      by (auto simp: builtinSelectors_Some)
    with plain e n f show ?thesis by blast
  qed
qed

lemma cacheSelector_sound:
  "sound (lowerSpec cacheName creator name fn f) (cacheSelector cacheName f s)
     (answers (selectsCache cacheName s))"
  unfolding cacheSelector_def
  by (rule featureSelector_sound) (simp_all only: lowerSpec_cells)

lemma collectionSelector_lower_sound:
  "sound (lowerSpec cacheName creator name fn f) (collectionSelector cacheName creator name f s)
     (answers (selectsCollection cacheName creator name s))"
  unfolding collectionSelector_def
  by (rule collectionSelector_sound [OF cacheSelector_sound]) (simp_all only: lowerSpec_cells)

lemma rootBase_ge: "f + 4 \<le> rootBase fn f"
  by (simp add: rootBase_def)

lemma cacheSelector_modifies: "modifies {f ..< rootBase fn f} (cacheSelector cacheName f s)"
  unfolding cacheSelector_def
  by (rule modifies_mono [OF featureSelector_modifies]) (use rootBase_ge [of f fn] in auto)

lemma collectionSelector_lower_modifies:
  "modifies {f ..< rootBase fn f} (collectionSelector cacheName creator name f s)"
proof -
  have "modifies (insert (f + 3) (insert (f + 2) {f, f + 1}))
      (collectionSelector cacheName creator name f s)"
    unfolding collectionSelector_def cacheSelector_def
    by (rule collectionSelector_modifies) (rule featureSelector_modifies)
  then show ?thesis
    by (rule modifies_mono) (use rootBase_ge [of f fn] in auto)
qed

lemma lowerSpec_above: "rootBase fn f \<le> n \<Longrightarrow> lowerSpec cacheName creator name fn f n prev r"
  by (cases fn) (simp_all add: rootBase_def lowerSpec_def memberSpec_def)

lemma member_lower_sound:
  assumes "m \<in> snd ` set (fst (builtinSelectors fn (w\<lparr>next_cell := f + 4\<rparr>))) \<or> (\<exists>j. m = extraSelector j)"
  shows "sound (lowerSpec cacheName creator name fn f) (m c) (\<lambda>r. True)"
  using assms
proof
  assume "m \<in> snd ` set (fst (builtinSelectors fn (w\<lparr>next_cell := f + 4\<rparr>)))"
  then show ?thesis
    by (rule builtin_member_sound [rotated]) (simp add: lowerSpec_member)
next
  assume "\<exists>j. m = extraSelector j"
  then show ?thesis by (auto intro: extraSelector_sound)
qed

lemma member_lower_modifies:
  assumes "m \<in> snd ` set (fst (builtinSelectors fn (w\<lparr>next_cell := f + 4\<rparr>))) \<or> (\<exists>j. m = extraSelector j)"
  shows "modifies {f ..< rootBase fn f} (m c)"
  using assms
proof
  assume "m \<in> snd ` set (fst (builtinSelectors fn (w\<lparr>next_cell := f + 4\<rparr>)))"
  from builtin_member_modifies [OF this, of c] show ?thesis
    by (rule modifies_mono) (auto simp: rootBase_def)
next
  assume "\<exists>j. m = extraSelector j"
  then obtain j where "m = extraSelector j" ..
  then show ?thesis
    using modifies_mono [OF plain_modifies(7) [of j c]] by simp
qed

lemma coherent_lower_member:
  "coherent (lowerSpec cacheName creator name fn f) w \<Longrightarrow> coherent (memberSpec fn (f + 4)) w"
  unfolding coherent_def
proof (intro allI impI)
  fix n prev r
  assume a: "\<forall>n prev r. cells w n = Some (prev, r) \<longrightarrow> lowerSpec cacheName creator name fn f n prev r"
    and c: "cells w n = Some (prev, r)"
  show "memberSpec fn (f + 4) n prev r"
  proof (cases "f + 4 \<le> n")
    case True
    from a c have "lowerSpec cacheName creator name fn f n prev r" by blast
    then show ?thesis by (simp only: lowerSpec_member [OF True])
  next
    case False
    then show ?thesis by (simp add: memberSpec_def split: option.splits)
  qed
qed

subsection \<open>The root selectors: the invariant holds in every reachable world\<close>

lemma root_call:
  fixes metadata :: "'a EntityMetadata"
  assumes S: "createCollectionSelectors metadata (w0\<lparr>next_cell := f + 4\<rparr>) = (Inr S, w3)"
    and inv: "rootsInv (lowerSpec cacheName creator name (filterFn metadata) f)
                (selectsCollection cacheName creator name) S (rootBase (filterFn metadata) f) w"
    and km: "map_of S k = Some m"
    and run: "memoizedState (rootCell S (rootBase (filterFn metadata) f) k)
                (rootCell S (rootBase (filterFn metadata) f) k + 1)
                [collectionSelector cacheName creator name f] (memberProjector m) s w = (r, w')"
  shows "rootsInv (lowerSpec cacheName creator name (filterFn metadata) f)
                (selectsCollection cacheName creator name) S (rootBase (filterFn metadata) f) w'
     \<and> ((\<exists>c. selectsCollection cacheName creator name s c
              \<and> outcome (lowerSpec cacheName creator name (filterFn metadata) f) m c r)
          \<or> (\<exists>e. r = Inl e \<and> \<not> (\<exists>c. selectsCollection cacheName creator name s c)))
     \<and> (\<forall>v. r = Inr v \<longrightarrow>
           (\<exists>c. selectsCollection cacheName creator name s c
              \<and> cells w' (rootCell S (rootBase (filterFn metadata) f) k) = Some ([c], v)))"
proof (rule root_step [OF inv km _ _ _ _ _ _ run])
  let ?fn = "filterFn metadata"
  from createCollectionSelectors_values [OF S km]
  have m: "m \<in> snd ` set (fst (builtinSelectors ?fn (w0\<lparr>next_cell := f + 4\<rparr>))) \<or> (\<exists>j. m = extraSelector j)" .
  show "lowerSpec cacheName creator name ?fn f n prev v" if "rootBase ?fn f \<le> n" for n prev v
    using that by (rule lowerSpec_above)
  show "sound (lowerSpec cacheName creator name ?fn f) (collectionSelector cacheName creator name f x)
          (answers (selectsCollection cacheName creator name x))" for x
    by (rule collectionSelector_lower_sound)
  show "modifies {f ..< rootBase ?fn f} (collectionSelector cacheName creator name f x)" for x
    by (rule collectionSelector_lower_modifies)
  show "sound (lowerSpec cacheName creator name ?fn f) (m c) (\<lambda>r. True)" for c
    by (rule member_lower_sound [OF m])
  show "modifies {f ..< rootBase ?fn f} (m c)" for c
    by (rule member_lower_modifies [OF m])
  show "n < rootBase ?fn f" if "n \<in> {f ..< rootBase ?fn f}" for n
    using that by simp
qed

lemma roots_invariant:
  fixes metadata :: "'a EntityMetadata"
  assumes fac: "new_EntitySelectorsFactory cacheName creator w0 = (this, w1)"
    and fresh: "unused w0"
    and build: "create this metadata w1 = (Inr rs, w2)"
    and reach: "reachable (insert (selectEntityCache this) (snd ` set (rootSelectors rs))) w2 w"
    and S: "createCollectionSelectors metadata (w0\<lparr>next_cell := next_cell w0 + 4\<rparr>) = (Inr S, w3)"
  shows "rootsInv (lowerSpec cacheName creator (entityName metadata) (filterFn metadata) (next_cell w0))
           (selectsCollection cacheName creator (entityName metadata)) S
           (rootBase (filterFn metadata) (next_cell w0)) w"
proof -
  let ?f = "next_cell w0"
  let ?fn = "filterFn metadata"
  let ?name = "entityName metadata"
  let ?L = "lowerSpec cacheName creator ?name ?fn ?f"
  let ?A = "selectsCollection cacheName creator ?name"
  let ?r0 = "rootBase ?fn ?f"
  let ?sc = "collectionSelector cacheName creator ?name ?f"
  obtain S' where S': "createCollectionSelectors metadata (w0\<lparr>next_cell := ?f + 4\<rparr>)
       = (Inr S', w0\<lparr>next_cell := ?r0\<rparr>)"
    and "distinct (map fst S')"
    and cells2: "cells w2 = cells w0"
    and sec: "selectEntityCache this = cacheSelector cacheName ?f"
    and "rootEntityName rs = entityName metadata"
    and dist: "distinct (map fst (rootSelectors rs))"
    and look': "\<And>name. map_of (rootSelectors rs) name =
          (case map_of S' name of
             Some m \<Rightarrow>
               Some (memoizedState (rootCell S' ?r0 name) (rootCell S' ?r0 name + 1) [?sc] (memberProjector m))
           | None \<Rightarrow> if name = ''selectCollection'' then Some ?sc else None)"
    by (rule create_layout [OF fac build]) (rule that)
  from S S' have "S' = S" by simp
  note look = look' [unfolded this]
  have low: "n < ?r0" if "n \<in> {?f ..< ?r0}" for n
    using that by simp
  from reach show ?thesis
  proof (induction rule: reachable.induct)
    case start
    have "coherent ?L w2"
      using lowerSpec_initial [OF fresh, of cacheName creator ?name ?fn] cells2
      by (simp add: coherent_def)
    moreover have "rootInv ?L ?A (rootCell S ?r0 k) m w2" for k m
    proof -
      have "?f \<le> rootCell S ?r0 k"
        using rootCell_ge [of ?r0 S k] rootBase_ge [of ?f ?fn] by simp
      with fresh have "cells w0 (rootCell S ?r0 k) = None" "cells w0 (rootCell S ?r0 k + 1) = None"
        by (simp_all add: unused_def)
      then show ?thesis by (simp add: rootInv_def cells2)
    qed
    ultimately show ?case by (simp add: rootsInv_def)
  next
    case (call w g x r w')
    from call.hyps(2) consider "g = cacheSelector cacheName ?f" | "g \<in> snd ` set (rootSelectors rs)"
      by (auto simp: sec)
    then show ?case
    proof cases
      case 1
      with call.hyps(3) have run: "cacheSelector cacheName ?f x w = (r, w')" by simp
      from lower_preserves [OF call.IH cacheSelector_sound cacheSelector_modifies [where fn = ?fn] low run]
      show ?thesis by simp
    next
      case 2
      then obtain k where "(k, g) \<in> set (rootSelectors rs)" by auto
      with dist have g: "map_of (rootSelectors rs) k = Some g" by simp
      show ?thesis
      proof (cases "map_of S k")
        case None
        with g look [of k] have "g = ?sc" by (simp split: if_splits)
        with call.hyps(3) have run: "?sc x w = (r, w')" by simp
        from lower_preserves [OF call.IH collectionSelector_lower_sound
            collectionSelector_lower_modifies [where fn = ?fn] low run]
        show ?thesis by simp
      next
        case (Some m)
        with g look [of k]
        have "g = memoizedState (rootCell S ?r0 k) (rootCell S ?r0 k + 1) [?sc] (memberProjector m)"
          by simp
        with call.hyps(3)
        have run: "memoizedState (rootCell S ?r0 k) (rootCell S ?r0 k + 1) [?sc] (memberProjector m) x w
            = (r, w')"
          by simp
        from root_call [OF S call.IH Some run] show ?thesis by simp
      qed
    qed
  qed
qed

lemma root_second:
  assumes inv: "rootsInv L A S r0 w" and km: "map_of S k = Some m"
    and sc_sound: "\<And>s. sound L (sc s) (answers (A s))"
    and sc_mod: "\<And>s. modifies C (sc s)"
    and low: "\<And>n. n \<in> C \<Longrightarrow> n < r0"
    and mpc: "cells w (rootCell S r0 k) = Some ([c], v)"
    and uniq: "\<And>c'. A s c' \<Longrightarrow> c' = c" and ex: "A s c"
    and run: "memoizedState (rootCell S r0 k) (rootCell S r0 k + 1) [sc] (memberProjector m) s w = (r, w')"
  shows "r = Inr v"
proof -
  let ?mp = "rootCell S r0 k"
  let ?ms = "rootCell S r0 k + 1"
  let ?w = "w\<lparr>invocations := invocations w + 1\<rparr>"
  let ?T = "\<lambda>args w. case map_selectors [sc] (arg args 0) w of
                 (Inl e, w1) \<Rightarrow> (Inl e, w1)
               | (Inr args, w1) \<Rightarrow> memoize ?mp (memberProjector m) args w1"
  from run have run': "memoize ?ms ?T [s] w = (r, w')"
    by (simp only: memoizedState_def)
  have T: "?T [s] u = (case sc s u of
        (Inl e, w1) \<Rightarrow> (Inl e, w1)
      | (Inr c, w1) \<Rightarrow> memoize ?mp (memberProjector m) [c] w1)" for u
    by (rule root_state_function)
  from inv km have ri: "rootInv L A ?mp m w" by (simp add: rootsInv_def)
  have inv': "rootsInv L A S r0 ?w" using inv by simp
  obtain r1 w1 where r1: "sc s ?w = (r1, w1)" by (cases "sc s ?w")
  from lower_preserves [OF inv' sc_sound sc_mod low r1]
  have a1: "answers (A s) r1" by simp
  from answers_total [OF a1 ex] uniq have r1c: "r1 = Inr c" by auto
  have "?mp \<notin> C"
  proof
    assume "?mp \<in> C"
    from low [OF this] rootCell_ge [of r0 S k] show False by simp
  qed
  with modifiesD [OF sc_mod r1] have "cells w1 ?mp = cells ?w ?mp" by simp
  with mpc have "cells w1 ?mp = Some ([c], v)" by simp
  then have inner: "memoize ?mp (memberProjector m) [c] w1 = (Inr v, w1)"
    by (rule memoize_hit)
  have Tw: "?T [s] ?w = (Inr v, w1)"
    unfolding T r1 r1c using inner by simp
  from run' show ?thesis
  proof (cases rule: memoize_cases)
    case (hit prev v')
    from ri hit(1) obtain c' where "cells w ?mp = Some ([c'], v')"
      by (auto simp: rootInv_def)
    with mpc hit(3) show ?thesis by simp
  next
    case (raise e)
    with Tw show ?thesis by simp
  next
    case (store v' wx)
    with Tw show ?thesis by simp
  qed
qed

lemma builtin_not_selectCollection:
  "map_of (fst (builtinSelectors fn w)) ''selectCollection'' = None"
proof -
  have "''selectCollection'' \<notin> set builtinNames" by (simp add: builtinNames_def)
  then have "''selectCollection'' \<notin> fst ` set (fst (builtinSelectors fn w))"
    using builtinSelectors_names [of fn w] by (metis set_map)
  then show ?thesis by (simp add: map_of_eq_None_iff)
qed

lemma outcome_lower_member:
  "outcome (lowerSpec cacheName creator name fn f) m c r \<Longrightarrow> outcome (memberSpec fn (f + 4)) m c r"
  unfolding outcome_def by (blast intro: coherent_lower_member)

text \<open>
  The results of the selectors that \<open>create\<close> returns, in every world that calls of them
  and of the selector of the entity cache lead to.
\<close>

lemma root_results:
  fixes metadata :: "'a EntityMetadata"
  assumes fac: "new_EntitySelectorsFactory cacheName creator w0 = (this, w1)"
    and fresh: "unused w0"
    and build: "create this metadata w1 = (Inr rs, w2)"
    and reach: "reachable (insert (selectEntityCache this) (snd ` set (rootSelectors rs))) w2 w"
  obtains S where
    "createCollectionSelectors metadata (snd (createCollectionSelector this (entityName metadata) w1))
       = (Inr S, w0\<lparr>next_cell := rootBase (filterFn metadata) (next_cell w0)\<rparr>)"
    and "\<And>k m. map_of S k = Some m \<Longrightarrow> \<exists>R. map_of (rootSelectors rs) k = Some R"
    and "\<And>k m s r w'. map_of S k = Some m \<Longrightarrow> invoke (rootSelectors rs) k s w = (r, w') \<Longrightarrow>
           (\<exists>c. selectsCollection cacheName creator (entityName metadata) s c
              \<and> outcome (memberSpec (filterFn metadata) (next_cell w0 + 4)) m c r)
         \<or> (\<exists>e. r = Inl e \<and> \<not> (\<exists>c. selectsCollection cacheName creator (entityName metadata) s c))"
    and "\<And>s r w'. map_of S ''selectCollection'' = None \<Longrightarrow>
           invoke (rootSelectors rs) ''selectCollection'' s w = (r, w') \<Longrightarrow>
           answers (selectsCollection cacheName creator (entityName metadata) s) r"
proof -
  let ?f = "next_cell w0"
  let ?fn = "filterFn metadata"
  let ?name = "entityName metadata"
  let ?L = "lowerSpec cacheName creator ?name ?fn ?f"
  let ?A = "selectsCollection cacheName creator ?name"
  let ?r0 = "rootBase ?fn ?f"
  let ?sc = "collectionSelector cacheName creator ?name ?f"
  obtain S where S: "createCollectionSelectors metadata (w0\<lparr>next_cell := ?f + 4\<rparr>)
       = (Inr S, w0\<lparr>next_cell := ?r0\<rparr>)"
    and "distinct (map fst S)"
    and "cells w2 = cells w0"
    and "selectEntityCache this = cacheSelector cacheName ?f"
    and "rootEntityName rs = entityName metadata"
    and "distinct (map fst (rootSelectors rs))"
    and look: "\<And>name. map_of (rootSelectors rs) name =
          (case map_of S name of
             Some m \<Rightarrow>
               Some (memoizedState (rootCell S ?r0 name) (rootCell S ?r0 name + 1) [?sc] (memberProjector m))
           | None \<Rightarrow> if name = ''selectCollection'' then Some ?sc else None)"
    by (rule create_layout [OF fac build]) (rule that)
  have inv: "rootsInv ?L ?A S ?r0 w"
    by (rule roots_invariant [OF fac fresh build reach S])
  from fac have "snd (createCollectionSelector this ?name w1) = w0\<lparr>next_cell := ?f + 4\<rparr>"
    by (auto simp: new_EntitySelectorsFactory_eq createCollectionSelector_eq)
  with S have S': "createCollectionSelectors metadata (snd (createCollectionSelector this ?name w1))
       = (Inr S, w0\<lparr>next_cell := ?r0\<rparr>)"
    by simp
  show thesis
  proof (rule that [OF S'])
    show "\<exists>R. map_of (rootSelectors rs) k = Some R" if "map_of S k = Some m" for k m
      using that look [of k] by simp
    show "(\<exists>c. ?A s c \<and> outcome (memberSpec ?fn (?f + 4)) m c r)
         \<or> (\<exists>e. r = Inl e \<and> \<not> (\<exists>c. ?A s c))"
      if km: "map_of S k = Some m" and run: "invoke (rootSelectors rs) k s w = (r, w')"
      for k m s r w'
    proof -
      from run km look [of k]
      have "memoizedState (rootCell S ?r0 k) (rootCell S ?r0 k + 1) [?sc] (memberProjector m) s w
          = (r, w')"
        by (simp add: invoke_def)
      from root_call [OF S inv km this]
      have "(\<exists>c. ?A s c \<and> outcome ?L m c r) \<or> (\<exists>e. r = Inl e \<and> \<not> (\<exists>c. ?A s c))"
        by simp
      then show ?thesis by (blast intro: outcome_lower_member)
    qed
    show "answers (?A s) r"
      if none: "map_of S ''selectCollection'' = None"
        and run: "invoke (rootSelectors rs) ''selectCollection'' s w = (r, w')" for s r w'
    proof -
      from run none look [of "''selectCollection''"] have run': "?sc s w = (r, w')"
        by (simp add: invoke_def)
      from inv have "coherent ?L w" by (simp add: rootsInv_def)
      from soundD [OF collectionSelector_lower_sound this run'] show ?thesis by simp
    qed
  qed
qed

lemma outcome_extraSelector: "outcome spec (extraSelector k) c r \<Longrightarrow> r = property c k"
  by (auto simp: outcome_def extraSelector_def)

lemma lastField_None_map_of:
  fixes metadata :: "'a EntityMetadata"
  assumes "createCollectionSelectors metadata w = (Inr S, w')"
    and "lastField (declaredFields metadata) ''selectCollection'' = None"
  shows "map_of S ''selectCollection'' = None"
proof -
  have ne: "list_all nameable (declaredFields metadata)"
    using createCollectionSelectors_Inl [of metadata w] assms(1) by auto
  from createCollectionSelectors_Inr [OF ne, of w] assms(1)
  have "map_of S ''selectCollection'' =
      (case lastField (declaredFields metadata) ''selectCollection'' of
         Some k \<Rightarrow> Some (extraSelector k)
       | None \<Rightarrow> map_of (fst (builtinSelectors (filterFn metadata) w)) ''selectCollection'')"
    by auto
  then show ?thesis
    by (simp add: assms(2) builtin_not_selectCollection)
qed

lemma lastField_Some_map_of:
  fixes metadata :: "'a EntityMetadata"
  assumes "createCollectionSelectors metadata w = (Inr S, w')"
    and "lastField (declaredFields metadata) name = Some j"
  shows "map_of S name = Some (extraSelector j)"
proof -
  have ne: "list_all nameable (declaredFields metadata)"
    using createCollectionSelectors_Inl [of metadata w] assms(1) by auto
  from createCollectionSelectors_Inr [OF ne, of w] assms(1)
  have "map_of S name =
      (case lastField (declaredFields metadata) name of
         Some k \<Rightarrow> Some (extraSelector k)
       | None \<Rightarrow> map_of (fst (builtinSelectors (filterFn metadata) w)) name)"
    by auto
  then show ?thesis by (simp add: assms(2))
qed

subsection \<open>Composition of the root selectors\<close>

text \<open>
  Let a factory be made in a world whose free cells are unused, let \<open>create\<close> return a
  set of root selectors for a configuration, and let \<open>w\<close> be any world that calls of
  these selectors and of the selector of the entity cache lead to. The set has the
  configured entity name. For every named member selector \<open>m\<close> of the object that
  \<open>createCollectionSelectors\<close> returned, the set has a root selector of that name, and its
  result in a state is a result of \<open>m\<close> on a collection that the collection accessor
  selects in that state (an exception only when the accessor selects none). When no
  declared additional field has the selector name \<open>selectCollection\<close>, the property
  \<open>selectCollection\<close> of the set returns the collection that the accessor selects.
\<close>

lemma root_selectors_compose:
  fixes metadata :: "'a EntityMetadata"
  assumes fac: "new_EntitySelectorsFactory cacheName creator w0 = (this, w1)"
    and fresh: "unused w0"
    and build: "create this metadata w1 = (Inr rs, w2)"
    and reach: "reachable (insert (selectEntityCache this) (snd ` set (rootSelectors rs))) w2 w"
  shows "rootEntityName rs = entityName metadata
     \<and> (\<exists>S w3.
          createCollectionSelectors metadata (snd (createCollectionSelector this (entityName metadata) w1))
            = (Inr S, w3)
          \<and> (\<forall>k m. map_of S k = Some m \<longrightarrow> (\<exists>R. map_of (rootSelectors rs) k = Some R))
          \<and> (\<forall>k m s r w'. map_of S k = Some m \<longrightarrow> invoke (rootSelectors rs) k s w = (r, w') \<longrightarrow>
                (\<exists>c. selectsCollection cacheName creator (entityName metadata) s c
                   \<and> outcome (memberSpec (filterFn metadata) (next_cell w0 + 4)) m c r)
              \<or> (\<exists>e. r = Inl e \<and> \<not> (\<exists>c. selectsCollection cacheName creator (entityName metadata) s c))))
     \<and> (lastField (declaredFields metadata) ''selectCollection'' = None \<longrightarrow>
          (\<forall>s r w'. invoke (rootSelectors rs) ''selectCollection'' s w = (r, w') \<longrightarrow>
             answers (selectsCollection cacheName creator (entityName metadata) s) r))"
proof -
  let ?A = "selectsCollection cacheName creator (entityName metadata)"
  let ?w = "snd (createCollectionSelector this (entityName metadata) w1)"
  obtain S where S: "createCollectionSelectors metadata ?w
       = (Inr S, w0\<lparr>next_cell := rootBase (filterFn metadata) (next_cell w0)\<rparr>)"
    and has: "\<And>k m. map_of S k = Some m \<Longrightarrow> \<exists>R. map_of (rootSelectors rs) k = Some R"
    and res: "\<And>k m s r w'. map_of S k = Some m \<Longrightarrow> invoke (rootSelectors rs) k s w = (r, w') \<Longrightarrow>
           (\<exists>c. ?A s c \<and> outcome (memberSpec (filterFn metadata) (next_cell w0 + 4)) m c r)
         \<or> (\<exists>e. r = Inl e \<and> \<not> (\<exists>c. ?A s c))"
    and col: "\<And>s r w'. map_of S ''selectCollection'' = None \<Longrightarrow>
           invoke (rootSelectors rs) ''selectCollection'' s w = (r, w') \<Longrightarrow> answers (?A s) r"
    by (rule root_results [OF fac fresh build reach]) (rule that)
  have ne: "list_all nameable (declaredFields metadata)"
    by (rule create_nameable [OF build])
  from create_Inr [OF ne, of this w1] build
  have name: "rootEntityName rs = entityName metadata" by auto
  have c: "answers (?A s) r"
    if "lastField (declaredFields metadata) ''selectCollection'' = None"
      and "invoke (rootSelectors rs) ''selectCollection'' s w = (r, w')" for s r w'
    by (rule col [OF lastField_None_map_of [OF S that(1)] that(2)])
  from S has res have "\<exists>S w3. createCollectionSelectors metadata ?w = (Inr S, w3)
          \<and> (\<forall>k m. map_of S k = Some m \<longrightarrow> (\<exists>R. map_of (rootSelectors rs) k = Some R))
          \<and> (\<forall>k m s r w'. map_of S k = Some m \<longrightarrow> invoke (rootSelectors rs) k s w = (r, w') \<longrightarrow>
                (\<exists>c. ?A s c \<and> outcome (memberSpec (filterFn metadata) (next_cell w0 + 4)) m c r)
              \<or> (\<exists>e. r = Inl e \<and> \<not> (\<exists>c. ?A s c)))"
    by (intro exI [of _ S] exI [of _ "w0\<lparr>next_cell := rootBase (filterFn metadata) (next_cell w0)\<rparr>"])
      blast
  with name c show ?thesis by blast
qed

lemma create_rootsOf:
  fixes metadata :: "'a EntityMetadata"
  assumes "list_all nameable (declaredFields metadata)"
  shows "create this metadata w = (Inr (rootsOf (create this metadata w)), snd (create this metadata w))"
  using create_Inr [OF assms, of this w] by (auto simp: rootsOf_def)

lemma example_fac:
  "new_EntitySelectorsFactory ''entityCache'' (defaultCreator []) example_world
     = (example_factory, factory_world)"
  by (simp add: example_factory_def factory_world_def)

lemma is_state_example: "is_state ''entityCache'' example_state"
  by (simp add: is_state_def example_state_def example_collection_def)

lemma stored_example:
  "storedCollection ''entityCache'' (Some ''Hero'') example_state = Some example_collection"
  by (simp add: storedCollection_def example_state_def)

text \<open>
  C4. The interface \<^verbatim>\<open>EntitySelectors\<close> documents \<open>selectCollection\<close> as the cached
  collection itself. But \<open>create\<close> spreads the composed selectors
  after \<open>selectCollection\<close>: for the configuration \<^verbatim>\<open>{entityName: 'Hero',
  additionalCollectionState: {collection: 0}}\<close> the selector name of the field
  \<open>collection\<close> is \<open>selectCollection\<close>, the root selector of the field accessor replaces
  the collection selector in the returned set, and on a state whose collection of heroes
  has \<open>collection = 5\<close> the property \<open>selectCollection\<close> of the set returns \<open>5\<close>, not the
  collection.
\<close>

theorem selectCollection_shadowed:
  "declaredFields collection_metadata = [''collection'']
   \<and> selectorName ''collection'' = Inr ''selectCollection''
   \<and> rootEntityName shadowed_roots = Some ''Hero''
   \<and> storedCollection ''entityCache'' (Some ''Hero'') shadow_state = Some shadow_collection
   \<and> fst (invoke (rootSelectors shadowed_roots) ''selectCollection'' shadow_state shadowed_world)
        = Inr (VNum 5)"
proof -
  let ?A = "selectsCollection ''entityCache'' (defaultCreator []) (entityName collection_metadata)"
  have f: "declaredFields collection_metadata = [''collection'']"
    by (simp add: declaredFields_def declaredState_def Object_keys_def collection_metadata_def)
  have ne: "list_all nameable (declaredFields collection_metadata)"
    by (simp add: f)
  have build: "create example_factory collection_metadata factory_world
      = (Inr shadowed_roots, shadowed_world)"
    unfolding shadowed_roots_def shadowed_world_def by (rule create_rootsOf [OF ne])
  have reach: "reachable (insert (selectEntityCache example_factory) (snd ` set (rootSelectors shadowed_roots)))
      shadowed_world shadowed_world"
    by (rule reachable.start)
  have la: "lastField (declaredFields collection_metadata) ''selectCollection'' = Some ''collection''"
    by (simp add: f upper_ascii_def)
  have name: "entityName collection_metadata = Some ''Hero''"
    by (simp add: collection_metadata_def)
  from create_Inr [OF ne, of example_factory factory_world] build
  have rn: "rootEntityName shadowed_roots = Some ''Hero''"
    by (auto simp: name)
  have st: "is_state ''entityCache'' shadow_state"
    by (simp add: is_state_def shadow_state_def shadow_collection_def)
  have stored: "storedCollection ''entityCache'' (Some ''Hero'') shadow_state = Some shadow_collection"
    by (simp add: storedCollection_def shadow_state_def)
  have A: "?A shadow_state c \<longleftrightarrow> c = shadow_collection" for c
    by (rule selectsCollection_stored_Some [OF st]) (simp add: name stored)
  obtain S where S: "createCollectionSelectors collection_metadata
        (snd (createCollectionSelector example_factory (entityName collection_metadata) factory_world))
          = (Inr S, example_world\<lparr>next_cell := rootBase (filterFn collection_metadata) (next_cell example_world)\<rparr>)"
    and "\<And>k m. map_of S k = Some m \<Longrightarrow> \<exists>R. map_of (rootSelectors shadowed_roots) k = Some R"
    and res: "\<And>k m s r w'. map_of S k = Some m \<Longrightarrow>
        invoke (rootSelectors shadowed_roots) k s shadowed_world = (r, w') \<Longrightarrow>
          (\<exists>c. ?A s c \<and> outcome (memberSpec (filterFn collection_metadata) (next_cell example_world + 4)) m c r)
        \<or> (\<exists>e. r = Inl e \<and> \<not> (\<exists>c. ?A s c))"
    and "\<And>s r w'. map_of S ''selectCollection'' = None \<Longrightarrow>
           invoke (rootSelectors shadowed_roots) ''selectCollection'' s shadowed_world = (r, w') \<Longrightarrow>
           answers (?A s) r"
    by (rule root_results [OF example_fac unused_example_world build reach]) (rule that)
  have m: "map_of S ''selectCollection'' = Some (extraSelector ''collection'')"
    by (rule lastField_Some_map_of [OF S la])
  obtain r u where r: "invoke (rootSelectors shadowed_roots) ''selectCollection'' shadow_state shadowed_world
      = (r, u)"
    by (cases "invoke (rootSelectors shadowed_roots) ''selectCollection'' shadow_state shadowed_world")
  from res [OF m r]
  have "outcome (memberSpec (filterFn collection_metadata) (next_cell example_world + 4))
      (extraSelector ''collection'') shadow_collection r"
    by (auto simp: A)
  then have "r = property shadow_collection ''collection''"
    by (rule outcome_extraSelector)
  then have "r = Inr (VNum 5)"
    by (simp add: shadow_collection_def)
  with f rn stored show ?thesis by (simp add: r upper_ascii_def)
qed

subsection \<open>A configuration without entity name\<close>

lemma createCollectionSelectors_entityName:
  "createCollectionSelectors (metadata\<lparr>entityName := n\<rparr>) u = createCollectionSelectors metadata u"
  by (simp add: createCollectionSelectors_def declaredFields_def declaredState_def)

text \<open>
  C9, amended. Neither \<open>createCollectionSelectors\<close> nor \<open>create\<close> checks the entity
  name. \<open>createCollectionSelectors\<close> does not read it: it returns the same for every
  entity name put into the configuration. For a configuration without \<open>entityName\<close> for
  which the selector name of every declared field is formed, \<open>create\<close> of a factory (made
  in a world whose free cells are unused) returns a set of root selectors; its
  \<open>entityName\<close> is missing. The missing name stands for the property name \<open>undefined\<close>:
  when no declared field has the selector name \<open>selectCollection\<close> and the name of the
  cache is no member of \<^verbatim>\<open>Object.prototype\<close>, then in every world that calls of the
  selectors lead to and on every typed state, \<open>selectCollection\<close> of the set returns the
  collection that the cache holds under \<open>undefined\<close>, or else a collection that the
  Collection Creator makes for the missing name.
\<close>

theorem create_without_entityName:
  fixes metadata :: "'a EntityMetadata"
  assumes none: "entityName metadata = None"
    and names: "list_all nameable (declaredFields metadata)"
    and fac: "new_EntitySelectorsFactory cacheName creator w0 = (this, w1)"
    and fresh: "unused w0"
  shows "(\<forall>n u. createCollectionSelectors (metadata\<lparr>entityName := n\<rparr>) u = createCollectionSelectors metadata u)
     \<and> name_key (entityName metadata) = ''undefined''
     \<and> (\<exists>rs w2. create this metadata w1 = (Inr rs, w2)
          \<and> rootEntityName rs = None
          \<and> (lastField (declaredFields metadata) ''selectCollection'' = None \<longrightarrow>
               cacheName \<notin> set Object_prototype \<longrightarrow>
               (\<forall>w s r w'.
                  reachable (insert (selectEntityCache this) (snd ` set (rootSelectors rs))) w2 w \<longrightarrow>
                  is_state cacheName s \<longrightarrow>
                  invoke (rootSelectors rs) ''selectCollection'' s w = (r, w') \<longrightarrow>
                  (case storedCollection cacheName None s of
                     Some c \<Rightarrow> r = Inr c
                   | None \<Rightarrow> \<exists>n. r = Inr (fst (creator None n))))))"
proof -
  let ?A = "selectsCollection cacheName creator None"
  from create_Inr [OF names, of this w1] none
  obtain rs w2 where build: "create this metadata w1 = (Inr rs, w2)"
    and rn: "rootEntityName rs = None"
    by auto
  have sel: "case storedCollection cacheName None s of
               Some c \<Rightarrow> r = Inr c
             | None \<Rightarrow> \<exists>n. r = Inr (fst (creator None n))"
    if l: "lastField (declaredFields metadata) ''selectCollection'' = None"
      and plain: "cacheName \<notin> set Object_prototype"
      and reach: "reachable (insert (selectEntityCache this) (snd ` set (rootSelectors rs))) w2 w"
      and st: "is_state cacheName s"
      and run: "invoke (rootSelectors rs) ''selectCollection'' s w = (r, w')"
    for w s r w'
  proof -
    from root_selectors_compose [OF fac fresh build reach] l run
    have a: "answers (?A s) r"
      unfolding none by blast
    have u: "name_key None \<notin> set Object_prototype"
      by (simp add: Object_prototype_def)
    note stored = selectsCollection_stored [OF st plain u, of creator]
    have "\<exists>c0. ?A s c0"
      unfolding stored by (cases "storedCollection cacheName None s") auto
    then obtain c0 where "?A s c0" ..
    from answers_total [OF a this] obtain c where r: "r = Inr c" and c: "?A s c"
      by blast
    from c have "case storedCollection cacheName None s of
          Some v \<Rightarrow> c = v
        | None \<Rightarrow> \<exists>n. c = fst (creator None n)"
      by (simp only: stored)
    then show ?thesis
      by (simp add: r split: option.splits)
  qed
  have "\<exists>rs w2. create this metadata w1 = (Inr rs, w2)
          \<and> rootEntityName rs = None
          \<and> (lastField (declaredFields metadata) ''selectCollection'' = None \<longrightarrow>
               cacheName \<notin> set Object_prototype \<longrightarrow>
               (\<forall>w s r w'.
                  reachable (insert (selectEntityCache this) (snd ` set (rootSelectors rs))) w2 w \<longrightarrow>
                  is_state cacheName s \<longrightarrow>
                  invoke (rootSelectors rs) ''selectCollection'' s w = (r, w') \<longrightarrow>
                  (case storedCollection cacheName None s of
                     Some c \<Rightarrow> r = Inr c
                   | None \<Rightarrow> \<exists>n. r = Inr (fst (creator None n)))))"
    by (intro exI [of _ rs] exI [of _ w2] conjI build rn impI allI) (rule sel)
  then show ?thesis
    by (simp add: createCollectionSelectors_entityName none)
qed

theorem create_without_entityName_witness:
  "entityName nameless_metadata = None
   \<and> list_all nameable (declaredFields nameless_metadata)
   \<and> unused example_world
   \<and> lastField (declaredFields nameless_metadata) ''selectCollection'' = None
   \<and> ''entityCache'' \<notin> set Object_prototype
   \<and> is_state ''entityCache'' undefined_state
   \<and> is_state ''entityCache'' villain_state
   \<and> reachable (insert (selectEntityCache example_factory) (snd ` set (rootSelectors nameless_roots)))
        nameless_world nameless_world
   \<and> createCollectionSelectors (nameless_metadata\<lparr>entityName := Some ''Hero''\<rparr>) example_world
        = createCollectionSelectors nameless_metadata example_world
   \<and> rootEntityName nameless_roots = None
   \<and> storedCollection ''entityCache'' None undefined_state = Some shadow_collection
   \<and> fst (invoke (rootSelectors nameless_roots) ''selectCollection'' undefined_state nameless_world)
        = Inr shadow_collection
   \<and> storedCollection ''entityCache'' None villain_state = None
   \<and> (\<exists>n. fst (invoke (rootSelectors nameless_roots) ''selectCollection'' villain_state nameless_world)
          = Inr (fst (defaultCreator [] None n)))"
proof -
  have n: "entityName nameless_metadata = None"
    by (simp add: nameless_metadata_def)
  have f: "declaredFields nameless_metadata = []"
    by (simp add: declaredFields_def declaredState_def Object_keys_def nameless_metadata_def)
  have ne: "list_all nameable (declaredFields nameless_metadata)"
    and l: "lastField (declaredFields nameless_metadata) ''selectCollection'' = None"
    by (simp_all add: f)
  have plain: "''entityCache'' \<notin> set Object_prototype"
    by (simp add: Object_prototype_def)
  have s1: "is_state ''entityCache'' undefined_state"
    by (simp add: is_state_def undefined_state_def shadow_collection_def)
  have s2: "is_state ''entityCache'' villain_state"
    by (simp add: is_state_def villain_state_def)
  have st1: "storedCollection ''entityCache'' None undefined_state = Some shadow_collection"
    by (simp add: storedCollection_def undefined_state_def)
  have st2: "storedCollection ''entityCache'' None villain_state = None"
    by (simp add: storedCollection_def villain_state_def)
  have build: "create example_factory nameless_metadata factory_world = (Inr nameless_roots, nameless_world)"
    unfolding nameless_roots_def nameless_world_def by (rule create_rootsOf [OF ne])
  have reach: "reachable (insert (selectEntityCache example_factory) (snd ` set (rootSelectors nameless_roots)))
      nameless_world nameless_world"
    by (rule reachable.start)
  note t = create_without_entityName [OF n ne example_fac unused_example_world]
  from t have e: "createCollectionSelectors (nameless_metadata\<lparr>entityName := Some ''Hero''\<rparr>) example_world
        = createCollectionSelectors nameless_metadata example_world"
    by blast
  from t build l plain have rn: "rootEntityName nameless_roots = None"
    and all: "\<forall>w s r w'.
        reachable (insert (selectEntityCache example_factory) (snd ` set (rootSelectors nameless_roots)))
          nameless_world w \<longrightarrow>
        is_state ''entityCache'' s \<longrightarrow>
        invoke (rootSelectors nameless_roots) ''selectCollection'' s w = (r, w') \<longrightarrow>
        (case storedCollection ''entityCache'' None s of
           Some c \<Rightarrow> r = Inr c
         | None \<Rightarrow> \<exists>n. r = Inr (fst (defaultCreator [] None n)))"
    by auto
  obtain r1 u1 where r1: "invoke (rootSelectors nameless_roots) ''selectCollection'' undefined_state
      nameless_world = (r1, u1)"
    by (cases "invoke (rootSelectors nameless_roots) ''selectCollection'' undefined_state nameless_world")
  from all [rule_format, OF reach s1 r1] have v1: "r1 = Inr shadow_collection"
    by (simp add: st1)
  obtain r2 u2 where r2: "invoke (rootSelectors nameless_roots) ''selectCollection'' villain_state
      nameless_world = (r2, u2)"
    by (cases "invoke (rootSelectors nameless_roots) ''selectCollection'' villain_state nameless_world")
  from all [rule_format, OF reach s2 r2] have v2: "\<exists>n. r2 = Inr (fst (defaultCreator [] None n))"
    by (simp add: st2)
  from n ne unused_example_world l plain s1 s2 reach e rn st1 st2 v2 show ?thesis
    by (simp add: r1 v1 r2)
qed

text \<open>
  The build does not fail: for a configuration without \<open>entityName\<close>, \<open>create\<close> returns
  a set of root selectors, and the set has no entity name.
\<close>

theorem create_without_entityName_counterexample:
  "entityName nameless_metadata = None
   \<and> fst (create example_factory nameless_metadata factory_world) = Inr nameless_roots
   \<and> rootEntityName nameless_roots = None"
proof -
  have f: "declaredFields nameless_metadata = []"
    by (simp add: declaredFields_def declaredState_def Object_keys_def nameless_metadata_def)
  have ne: "list_all nameable (declaredFields nameless_metadata)"
    by (simp add: f)
  from create_Inr [OF ne, of example_factory factory_world]
  show ?thesis
    by (auto simp: nameless_metadata_def nameless_roots_def rootsOf_def)
qed

subsection \<open>Isolation of the root selectors\<close>

text \<open>
  C5. Let a factory be made in a world whose free cells are unused, let \<open>create\<close> return a
  set of root selectors for a configuration, and let \<open>w\<close> be any world that calls of these
  selectors and of the selector of the entity cache lead to. Let \<open>s1\<close> and \<open>s2\<close> be two
  states whose entity caches hold the same collection \<open>c\<close> for the configured entity name;
  they may differ in everything else. When a root selector of the set returns \<open>v\<close> in
  \<open>s1\<close>, its next call, in \<open>s2\<close>, returns the same \<open>v\<close>, with the same reference.
\<close>

theorem root_selectors_isolated:
  fixes metadata :: "'a EntityMetadata"
  assumes fac: "new_EntitySelectorsFactory cacheName creator w0 = (this, w1)"
    and fresh: "unused w0"
    and build: "create this metadata w1 = (Inr rs, w2)"
    and reach: "reachable (insert (selectEntityCache this) (snd ` set (rootSelectors rs))) w2 w"
    and st1: "is_state cacheName s1" and st2: "is_state cacheName s2"
    and c1: "storedCollection cacheName (entityName metadata) s1 = Some c"
    and c2: "storedCollection cacheName (entityName metadata) s2 = Some c"
    and first: "invoke (rootSelectors rs) k s1 w = (Inr v, wa)"
    and second: "invoke (rootSelectors rs) k s2 wa = (r, wb)"
  shows "r = Inr v"
proof -
  let ?f = "next_cell w0"
  let ?fn = "filterFn metadata"
  let ?name = "entityName metadata"
  let ?L = "lowerSpec cacheName creator ?name ?fn ?f"
  let ?A = "selectsCollection cacheName creator ?name"
  let ?r0 = "rootBase ?fn ?f"
  let ?sc = "collectionSelector cacheName creator ?name ?f"
  obtain S where S: "createCollectionSelectors metadata (w0\<lparr>next_cell := ?f + 4\<rparr>)
       = (Inr S, w0\<lparr>next_cell := ?r0\<rparr>)"
    and "distinct (map fst S)"
    and "cells w2 = cells w0"
    and "selectEntityCache this = cacheSelector cacheName ?f"
    and "rootEntityName rs = entityName metadata"
    and "distinct (map fst (rootSelectors rs))"
    and look: "\<And>name. map_of (rootSelectors rs) name =
          (case map_of S name of
             Some m \<Rightarrow>
               Some (memoizedState (rootCell S ?r0 name) (rootCell S ?r0 name + 1) [?sc] (memberProjector m))
           | None \<Rightarrow> if name = ''selectCollection'' then Some ?sc else None)"
    by (rule create_layout [OF fac build]) (rule that)
  have inv: "rootsInv ?L ?A S ?r0 w"
    by (rule roots_invariant [OF fac fresh build reach S])
  have A1: "?A s1 c' \<longleftrightarrow> c' = c" for c'
    by (rule selectsCollection_stored_Some [OF st1 c1])
  have A2: "?A s2 c' \<longleftrightarrow> c' = c" for c'
    by (rule selectsCollection_stored_Some [OF st2 c2])
  have low: "n < ?r0" if "n \<in> {?f ..< ?r0}" for n
    using that by simp
  show ?thesis
  proof (cases "map_of S k")
    case None
    with first look [of k] have run1: "?sc s1 w = (Inr v, wa)"
      by (simp add: invoke_def split: if_splits)
    from None first look [of k] have sel: "map_of (rootSelectors rs) k = Some ?sc"
      by (simp add: invoke_def split: if_splits)
    with second have run2: "?sc s2 wa = (r, wb)"
      by (simp add: invoke_def)
    from lower_preserves [OF inv collectionSelector_lower_sound
        collectionSelector_lower_modifies [where fn = ?fn] low run1]
    have inva: "rootsInv ?L ?A S ?r0 wa" and "answers (?A s1) (Inr v)"
      by simp_all
    then have v: "v = c"
      by (simp add: answers_def A1)
    from lower_preserves [OF inva collectionSelector_lower_sound
        collectionSelector_lower_modifies [where fn = ?fn] low run2]
    have "answers (?A s2) r" by simp
    from answers_total [OF this, of c] show ?thesis
      by (auto simp: A2 v)
  next
    case (Some m)
    with look [of k]
    have sel: "map_of (rootSelectors rs) k
        = Some (memoizedState (rootCell S ?r0 k) (rootCell S ?r0 k + 1) [?sc] (memberProjector m))"
      by simp
    from first sel
    have run1: "memoizedState (rootCell S ?r0 k) (rootCell S ?r0 k + 1) [?sc] (memberProjector m) s1 w
        = (Inr v, wa)"
      by (simp add: invoke_def)
    from second sel
    have run2: "memoizedState (rootCell S ?r0 k) (rootCell S ?r0 k + 1) [?sc] (memberProjector m) s2 wa
        = (r, wb)"
      by (simp add: invoke_def)
    from root_call [OF S inv Some run1]
    have inva: "rootsInv ?L ?A S ?r0 wa"
      and "\<exists>c'. ?A s1 c' \<and> cells wa (rootCell S ?r0 k) = Some ([c'], v)"
      by simp_all
    then have mpc: "cells wa (rootCell S ?r0 k) = Some ([c], v)"
      by (auto simp: A1)
    have uniq: "c' = c" if "?A s2 c'" for c'
      using that by (simp add: A2)
    have ex: "?A s2 c"
      by (simp add: A2)
    show ?thesis
      by (rule root_second [OF inva Some collectionSelector_lower_sound
            collectionSelector_lower_modifies [where fn = ?fn] low mpc uniq ex run2])
  qed
qed

lemma is_state_other: "is_state ''entityCache'' other_state"
  by (simp add: is_state_def other_state_def example_collection_def)

lemma stored_other:
  "storedCollection ''entityCache'' (Some ''Hero'') other_state = Some example_collection"
  by (simp add: storedCollection_def other_state_def)

lemma states_differ: "example_state \<noteq> other_state"
  by (simp add: example_state_def other_state_def)

lemma example_selectEntities:
  "fst (invoke (rootSelectors example_roots) ''selectEntities'' example_state roots_world)
     = Inr (VArray 100 [VEntity (1, ''a''), VEntity (2, ''b'')])"
  by code_simp

theorem root_selectors_isolated_witness:
  "unused example_world
   \<and> reachable (insert (selectEntityCache example_factory) (snd ` set (rootSelectors example_roots)))
        roots_world roots_world
   \<and> is_state ''entityCache'' example_state \<and> is_state ''entityCache'' other_state
   \<and> example_state \<noteq> other_state
   \<and> storedCollection ''entityCache'' (entityName example_metadata) example_state = Some example_collection
   \<and> storedCollection ''entityCache'' (entityName example_metadata) other_state = Some example_collection
   \<and> fst (invoke (rootSelectors example_roots) ''selectEntities'' example_state roots_world)
        = Inr (VArray 100 [VEntity (1, ''a''), VEntity (2, ''b'')])
   \<and> fst (invoke (rootSelectors example_roots) ''selectEntities'' other_state
        (snd (invoke (rootSelectors example_roots) ''selectEntities'' example_state roots_world)))
        = Inr (VArray 100 [VEntity (1, ''a''), VEntity (2, ''b'')])"
proof -
  let ?v = "VArray 100 [VEntity (1, ''a''), VEntity (2, ''b'')] :: hero val"
  let ?wa = "snd (invoke (rootSelectors example_roots) ''selectEntities'' example_state roots_world)"
  have f: "declaredFields example_metadata = [''loadedAt'']"
    by (simp add: declaredFields_def declaredState_def Object_keys_def example_metadata_def)
  have ne: "list_all nameable (declaredFields example_metadata)"
    by (simp add: f)
  have build: "create example_factory example_metadata factory_world = (Inr example_roots, roots_world)"
    unfolding example_roots_def roots_world_def by (rule create_rootsOf [OF ne])
  have reach: "reachable (insert (selectEntityCache example_factory) (snd ` set (rootSelectors example_roots)))
      roots_world roots_world"
    by (rule reachable.start)
  have name: "entityName example_metadata = Some ''Hero''"
    by (simp add: example_metadata_def)
  have c1: "storedCollection ''entityCache'' (entityName example_metadata) example_state
      = Some example_collection"
    by (simp add: name stored_example)
  have c2: "storedCollection ''entityCache'' (entityName example_metadata) other_state
      = Some example_collection"
    by (simp add: name stored_other)
  have first: "invoke (rootSelectors example_roots) ''selectEntities'' example_state roots_world
      = (Inr ?v, ?wa)"
    using example_selectEntities by (simp add: prod_eq_iff)
  obtain r wb where second: "invoke (rootSelectors example_roots) ''selectEntities'' other_state ?wa
      = (r, wb)"
    by (cases "invoke (rootSelectors example_roots) ''selectEntities'' other_state ?wa")
  have "r = Inr ?v"
    by (rule root_selectors_isolated [OF example_fac unused_example_world build reach
          is_state_example is_state_other c1 c2 first second])
  with second have s: "fst (invoke (rootSelectors example_roots) ''selectEntities'' other_state ?wa) = Inr ?v"
    by simp
  from unused_example_world reach is_state_example is_state_other states_differ c1 c2
    example_selectEntities s
  show ?thesis by (intro conjI)
qed

end
